theory Spec2Isabelle
  imports Main "HOL-Library.Mapping" "HOL-Library.AList_Mapping"
begin

section \<open>Nodes, pointers and the node store\<close>

text \<open>
  The Go program links its nodes by pointers and reaches the same node both through the
  map and through its neighbours, so the model keeps an explicit store: a list of nodes in
  which an address is an index. A pointer is an address or nil (\<open>None\<close>). Allocation
  (\<open>&Node{...}\<close>) appends to the store; nodes that the program drops stay in the store,
  unreachable, where Go's collector would free them.
\<close>

type_synonym ptr = "nat option"

record ('k, 'v) Node =
  key :: 'k
  "value" :: 'v
  prev :: ptr
  "next" :: ptr

type_synonym ('k, 'v) store = "('k, 'v) Node list"

text \<open>
  Dereferencing nil panics in Go. An address outside the store cannot arise in Go; the
  model gives it a fault of its own so that every read and write is checked.
\<close>

datatype fault = NilDereference | Dangling

definition load :: "('k, 'v) store \<Rightarrow> ptr \<Rightarrow> fault + ('k, 'v) Node" where
  "load h p =
     (case p of
        None \<Rightarrow> Inl NilDereference
      | Some a \<Rightarrow> if a < length h then Inr (h ! a) else Inl Dangling)"

definition modify ::
  "('k, 'v) store \<Rightarrow> ptr \<Rightarrow> (('k, 'v) Node \<Rightarrow> ('k, 'v) Node) \<Rightarrow> fault + ('k, 'v) store" where
  "modify h p f =
     (case p of
        None \<Rightarrow> Inl NilDereference
      | Some a \<Rightarrow> if a < length h then Inr (h[a := f (h ! a)]) else Inl Dangling)"

definition alloc :: "('k, 'v) store \<Rightarrow> ('k, 'v) Node \<Rightarrow> ('k, 'v) store \<times> ptr" where
  "alloc h n = (h @ [n], Some (length h))"

section \<open>The cache\<close>

text \<open>
  \<open>capacity\<close> is a Go \<open>int\<close>; the program only compares it with \<open>len(lru.cache)\<close>, so an
  unbounded integer models it. The map holds node pointers; \<open>len\<close> of the map is the
  number of its keys. The struct's fields never change after construction, except that the
  map is updated in place; the state of the program is the struct together with the store.
  The methods have the receiver \<open>lru *LRUCache\<close>; the model passes the struct itself, so a
  nil receiver is outside the model.

  The map compares keys with Go's \<open>==\<close> on \<open>K\<close>, which the model takes to be equality on
  \<open>'k\<close>. Key types on which \<open>==\<close> is not reflexive or can panic (floating-point keys
  holding NaN, interface keys holding such values or unhashable ones) are outside the model.
\<close>

record 'k LRUCache =
  capacity :: int
  cache :: "('k, ptr) mapping"
  head :: ptr
  tail :: ptr

record ('k, 'v) state =
  nodes :: "('k, 'v) store"
  lru :: "'k LRUCache"

text \<open>
  \<open>Constructor\<close>: the two sentinels are \<open>&Node[K, V]{}\<close>, whose key and value are the zero
  values of \<open>K\<close> and \<open>V\<close>; the model takes these two zero values as parameters \<open>zk\<close> and
  \<open>zv\<close>. The first argument is the store in which the constructor allocates.
\<close>

definition Constructor :: "('k, 'v) store \<Rightarrow> 'k \<Rightarrow> 'v \<Rightarrow> int \<Rightarrow> fault + ('k, 'v) state" where
  "Constructor h0 zk zv cap =
     (let (h1, headp) = alloc h0 \<lparr>key = zk, value = zv, prev = None, next = None\<rparr>;
          (h2, tailp) = alloc h1 \<lparr>key = zk, value = zv, prev = None, next = None\<rparr>
      in case modify h2 headp (\<lambda>n. n\<lparr>next := tailp\<rparr>) of
           Inl e \<Rightarrow> Inl e
         | Inr h3 \<Rightarrow>
             (case modify h3 tailp (\<lambda>n. n\<lparr>prev := headp\<rparr>) of
                Inl e \<Rightarrow> Inl e
              | Inr h4 \<Rightarrow>
                  Inr \<lparr>nodes = h4,
                       lru = \<lparr>capacity = cap, cache = Mapping.empty,
                              head = headp, tail = tailp\<rparr>\<rparr>))"

text \<open>\<open>addNode\<close>: four assignments, each reading the store as the one before left it.\<close>

definition addNode :: "'k LRUCache \<Rightarrow> ('k, 'v) store \<Rightarrow> ptr \<Rightarrow> fault + ('k, 'v) store" where
  "addNode c h node =
     (case modify h node (\<lambda>n. n\<lparr>prev := head c\<rparr>) of
        Inl e \<Rightarrow> Inl e
      | Inr h1 \<Rightarrow>
     (case load h1 (head c) of
        Inl e \<Rightarrow> Inl e
      | Inr hd1 \<Rightarrow>
     (case modify h1 node (\<lambda>n. n\<lparr>next := next hd1\<rparr>) of
        Inl e \<Rightarrow> Inl e
      | Inr h2 \<Rightarrow>
     (case load h2 (head c) of
        Inl e \<Rightarrow> Inl e
      | Inr hd2 \<Rightarrow>
     (case modify h2 (next hd2) (\<lambda>n. n\<lparr>prev := node\<rparr>) of
        Inl e \<Rightarrow> Inl e
      | Inr h3 \<Rightarrow> modify h3 (head c) (\<lambda>n. n\<lparr>next := node\<rparr>))))))"

definition removeNode :: "'k LRUCache \<Rightarrow> ('k, 'v) store \<Rightarrow> ptr \<Rightarrow> fault + ('k, 'v) store" where
  "removeNode c h node =
     (case load h node of
        Inl e \<Rightarrow> Inl e
      | Inr n \<Rightarrow>
          (let prevNode = prev n; nextNode = next n
           in case modify h prevNode (\<lambda>m. m\<lparr>next := nextNode\<rparr>) of
                Inl e \<Rightarrow> Inl e
              | Inr h1 \<Rightarrow> modify h1 nextNode (\<lambda>m. m\<lparr>prev := prevNode\<rparr>)))"

definition moveToHead :: "'k LRUCache \<Rightarrow> ('k, 'v) store \<Rightarrow> ptr \<Rightarrow> fault + ('k, 'v) store" where
  "moveToHead c h node =
     (case removeNode c h node of
        Inl e \<Rightarrow> Inl e
      | Inr h1 \<Rightarrow> addNode c h1 node)"

definition popTail :: "'k LRUCache \<Rightarrow> ('k, 'v) store \<Rightarrow> fault + (('k, 'v) store \<times> ptr)" where
  "popTail c h =
     (case load h (tail c) of
        Inl e \<Rightarrow> Inl e
      | Inr t \<Rightarrow>
          (let lastNode = prev t
           in case removeNode c h lastNode of
                Inl e \<Rightarrow> Inl e
              | Inr h1 \<Rightarrow> Inr (h1, lastNode)))"

text \<open>
  \<open>Get\<close> returns Go's pair \<open>(V, bool)\<close> together with the new state; \<open>zv\<close> is the zero value
  of \<open>V\<close> returned on a miss.
\<close>

definition Get :: "'v \<Rightarrow> ('k, 'v) state \<Rightarrow> 'k \<Rightarrow> fault + (('k, 'v) state \<times> 'v \<times> bool)" where
  "Get zv s k =
     (case Mapping.lookup (cache (lru s)) k of
        None \<Rightarrow> Inr (s, zv, False)
      | Some node \<Rightarrow>
          (case moveToHead (lru s) (nodes s) node of
             Inl e \<Rightarrow> Inl e
           | Inr h1 \<Rightarrow>
               (case load h1 node of
                  Inl e \<Rightarrow> Inl e
                | Inr n \<Rightarrow> Inr (s\<lparr>nodes := h1\<rparr>, value n, True))))"

text \<open>
  \<open>Put\<close>: on a miss the new node is allocated first, as in the source, then the length of
  the map is compared with the capacity, then the map and the list are updated.
\<close>

definition Put :: "('k, 'v) state \<Rightarrow> 'k \<Rightarrow> 'v \<Rightarrow> fault + ('k, 'v) state" where
  "Put s k v =
     (case Mapping.lookup (cache (lru s)) k of
        Some node \<Rightarrow>
          (case modify (nodes s) node (\<lambda>n. n\<lparr>value := v\<rparr>) of
             Inl e \<Rightarrow> Inl e
           | Inr h1 \<Rightarrow>
               (case moveToHead (lru s) h1 node of
                  Inl e \<Rightarrow> Inl e
                | Inr h2 \<Rightarrow> Inr (s\<lparr>nodes := h2\<rparr>)))
      | None \<Rightarrow>
          (let (h1, newNode) = alloc (nodes s) \<lparr>key = k, value = v, prev = None, next = None\<rparr>
           in case (if capacity (lru s) \<le> int (Mapping.size (cache (lru s)))
                    then (case popTail (lru s) h1 of
                            Inl e \<Rightarrow> Inl e
                          | Inr (h2, tailp) \<Rightarrow>
                              (case load h2 tailp of
                                 Inl e \<Rightarrow> Inl e
                               | Inr t \<Rightarrow> Inr (h2, Mapping.delete (key t) (cache (lru s)))))
                    else Inr (h1, cache (lru s))) of
                Inl e \<Rightarrow> Inl e
              | Inr (h3, m) \<Rightarrow>
                  (case addNode (lru s) h3 newNode of
                     Inl e \<Rightarrow> Inl e
                   | Inr h4 \<Rightarrow>
                       Inr \<lparr>nodes = h4,
                            lru = (lru s)\<lparr>cache := Mapping.update k newNode m\<rparr>\<rparr>)))"

text \<open>
  The loop of \<open>Display\<close> (\<open>current := lru.head.next; for current != lru.tail\<close>): the pairs
  it prints, front to back, returned as a list. The loop has no bound in the source, so the
  model is a partial function: \<open>None\<close> is a loop that never reaches the tail. The line that
  \<open>Display\<close> prints before the loop (capacity and \<open>len(lru.cache)\<close>) is not part of the
  result.
\<close>

partial_function (option) walk ::
  "('k, 'v) store \<Rightarrow> ptr \<Rightarrow> ptr \<Rightarrow> (fault + ('k \<times> 'v) list) option" where
  "walk h t current =
     (if current = t then Some (Inr [])
      else case load h current of
             Inl e \<Rightarrow> Some (Inl e)
           | Inr n \<Rightarrow>
               Option.bind (walk h t (next n))
                 (\<lambda>r. Some (case r of
                              Inl e \<Rightarrow> Inl e
                            | Inr kvs \<Rightarrow> Inr ((key n, value n) # kvs))))"

declare walk.simps [code]

definition Display :: "('k, 'v) state \<Rightarrow> (fault + ('k \<times> 'v) list) option" where
  "Display s =
     (case load (nodes s) (head (lru s)) of
        Inl e \<Rightarrow> Some (Inl e)
      | Inr hn \<Rightarrow> walk (nodes s) (tail (lru s)) (next hn))"

section \<open>Sequences of operations\<close>

datatype ('k, 'v) op = GetOp 'k | PutOp 'k 'v

fun step :: "'v \<Rightarrow> ('k, 'v) state \<Rightarrow> ('k, 'v) op \<Rightarrow> fault + ('k, 'v) state" where
  "step zv s (GetOp k) = (case Get zv s k of Inl e \<Rightarrow> Inl e | Inr (s', r) \<Rightarrow> Inr s')"
| "step zv s (PutOp k v) = Put s k v"

fun run :: "'v \<Rightarrow> ('k, 'v) state \<Rightarrow> ('k, 'v) op list \<Rightarrow> fault + ('k, 'v) state" where
  "run zv s [] = Inr s"
| "run zv s (x # xs) = (case step zv s x of Inl e \<Rightarrow> Inl e | Inr s' \<Rightarrow> run zv s' xs)"

text \<open>A cache is constructed and then used by a sequence of operations.\<close>

definition session ::
  "('k, 'v) store \<Rightarrow> 'k \<Rightarrow> 'v \<Rightarrow> int \<Rightarrow> ('k, 'v) op list \<Rightarrow> fault + ('k, 'v) state" where
  "session h0 zk zv cap ops =
     (case Constructor h0 zk zv cap of
        Inl e \<Rightarrow> Inl e
      | Inr s \<Rightarrow> run zv s ops)"

section \<open>Observations used in the statements\<close>

text \<open>
  The value stored for a key: the value field of the node that the map holds for it.
\<close>

definition stored :: "('k, 'v) state \<Rightarrow> 'k \<Rightarrow> 'v option" where
  "stored s k =
     (case Mapping.lookup (cache (lru s)) k of
        None \<Rightarrow> None
      | Some p \<Rightarrow> (case load (nodes s) p of Inl e \<Rightarrow> None | Inr n \<Rightarrow> Some (value n)))"

text \<open>
  The key an operation touches, and the order of the last touches in a history:
  \<open>touched_after ops k k'\<close> says that some suffix of the history touches \<open>k\<close> and does not
  touch \<open>k'\<close>, that is, the last touch of \<open>k\<close> is later than every touch of \<open>k'\<close>.
\<close>

fun op_key :: "('k, 'v) op \<Rightarrow> 'k" where
  "op_key (GetOp k) = k"
| "op_key (PutOp k v) = k"

definition touched_after :: "('k, 'v) op list \<Rightarrow> 'k \<Rightarrow> 'k \<Rightarrow> bool" where
  "touched_after ops k k' \<longleftrightarrow>
     (\<exists>n\<in>set [0..<Suc (length ops)].
        k \<in> op_key ` set (drop n ops) \<and> k' \<notin> op_key ` set (drop n ops))"

section \<open>The representation invariant\<close>

text \<open>
  \<open>linked h ps\<close>: along the address list \<open>ps\<close> each node's \<open>next\<close> is its successor and
  each node's \<open>prev\<close> is its predecessor. \<open>dll c h ns\<close>: the store holds a doubly linked
  list from the head sentinel through the live nodes \<open>ns\<close> to the tail sentinel, without
  repetition. \<open>indexed m h ns\<close>: the map holds exactly the keys of the live nodes, each with
  the address of its node, and no key occurs in two live nodes.
\<close>

definition linked :: "('k, 'v) store \<Rightarrow> nat list \<Rightarrow> bool" where
  "linked h ps = successively (\<lambda>x y. next (h ! x) = Some y \<and> prev (h ! y) = Some x) ps"

definition entries :: "('k, 'v) store \<Rightarrow> nat list \<Rightarrow> ('k \<times> 'v) list" where
  "entries h ns = map (\<lambda>a. (key (h ! a), value (h ! a))) ns"

definition dll :: "'k LRUCache \<Rightarrow> ('k, 'v) store \<Rightarrow> nat list \<Rightarrow> bool" where
  "dll c h ns \<longleftrightarrow>
     (\<exists>p q. head c = Some p \<and> tail c = Some q \<and> distinct (p # ns @ [q])
        \<and> (\<forall>x\<in>set (p # ns @ [q]). x < length h) \<and> linked h (p # ns @ [q]))"

definition indexed :: "('k, ptr) mapping \<Rightarrow> ('k, 'v) store \<Rightarrow> nat list \<Rightarrow> bool" where
  "indexed m h ns \<longleftrightarrow>
     distinct (map (\<lambda>a. key (h ! a)) ns)
     \<and> (\<forall>k p. Mapping.lookup m k = Some p \<longleftrightarrow> (\<exists>a\<in>set ns. p = Some a \<and> key (h ! a) = k))"

definition cache_inv :: "('k, 'v) state \<Rightarrow> nat list \<Rightarrow> bool" where
  "cache_inv s ns \<longleftrightarrow> dll (lru s) (nodes s) ns \<and> indexed (cache (lru s)) (nodes s) ns"

text \<open>
  The invariant of the states reached with a capacity of at least one, after the history
  \<open>ops\<close>: the representation invariant, the size bound, and the live nodes in the order of
  their last touches, most recent first.
\<close>

definition reach_inv ::
  "('k, 'v) op list \<Rightarrow> int \<Rightarrow> ('k, 'v) state \<Rightarrow> nat list \<Rightarrow> bool" where
  "reach_inv ops cap s ns \<longleftrightarrow>
     cache_inv s ns \<and> capacity (lru s) = cap \<and> int (length ns) \<le> cap
     \<and> sorted_wrt (\<lambda>x y. touched_after ops (key (nodes s ! x)) (key (nodes s ! y))) ns"

section \<open>A concrete session\<close>

text \<open>
  A cache of capacity two, in the empty store, after \<open>Put(1, 10)\<close>, \<open>Put(2, 20)\<close>, \<open>Get(1)\<close>:
  the sentinels are at addresses 0 and 1, key 1 is at the front and key 2 at the back.
\<close>

abbreviation demo_ops :: "(int, int) op list" where
  "demo_ops \<equiv> [PutOp 1 10, PutOp 2 20, GetOp 1]"

abbreviation demo_state :: "(int, int) state" where
  "demo_state \<equiv>
     \<lparr>nodes = [\<lparr>key = 0, value = 0, prev = None, next = Some 2\<rparr>,
               \<lparr>key = 0, value = 0, prev = Some 3, next = None\<rparr>,
               \<lparr>key = 1, value = 10, prev = Some 0, next = Some 3\<rparr>,
               \<lparr>key = 2, value = 20, prev = Some 2, next = Some 1\<rparr>],
      lru = \<lparr>capacity = 2,
             cache = Mapping.update 2 (Some 3) (Mapping.update 1 (Some 2) Mapping.empty),
             head = Some 0, tail = Some 1\<rparr>\<rparr>"

section \<open>Lists of linked nodes\<close>

lemma linked_Cons2 [simp]:
  "linked h (x # y # ps) \<longleftrightarrow> next (h ! x) = Some y \<and> prev (h ! y) = Some x \<and> linked h (y # ps)"
  by (simp add: linked_def)

lemma linked_single [simp]: "linked h [x]"
  by (simp add: linked_def)

lemma linked_Nil [simp]: "linked h []"
  by (simp add: linked_def)

lemma linked_append:
  "linked h (xs @ y # z # zs) \<longleftrightarrow> linked h (xs @ [y]) \<and> linked h (y # z # zs)"
  by (auto simp: linked_def successively_append_iff successively_Cons)

lemma in_set_tlD: "x \<in> set (tl xs) \<Longrightarrow> x \<in> set xs"
  by (cases xs) auto

text \<open>Links depend on \<open>next\<close> of all nodes but the last and on \<open>prev\<close> of all but the first.\<close>

lemma linked_frame:
  "linked h ps \<Longrightarrow> \<forall>x\<in>set (butlast ps). next (h' ! x) = next (h ! x) \<Longrightarrow>
   \<forall>x\<in>set (tl ps). prev (h' ! x) = prev (h ! x) \<Longrightarrow> linked h' ps"
proof (induction ps rule: induct_list012)
  case (3 x y zs)
  then show ?case by simp
qed simp_all

lemma removeNode_linked:
  assumes l: "linked h (xs @ a # ys)" and ne: "xs \<noteq> []" "ys \<noteq> []"
    and d: "distinct (xs @ a # ys)" and b: "\<forall>x\<in>set (xs @ a # ys). x < length h"
  shows "\<exists>h'. removeNode c h (Some a) = Inr h' \<and> length h' = length h \<and> linked h' (xs @ ys)
           \<and> (\<forall>x. key (h' ! x) = key (h ! x) \<and> value (h' ! x) = value (h ! x))
           \<and> (\<forall>x. x \<notin> set (xs @ a # ys) \<longrightarrow> h' ! x = h ! x) \<and> h' ! a = h ! a"
proof -
  obtain us p where xs: "xs = us @ [p]" using ne by (cases xs rule: rev_cases) auto
  obtain n vs where ys: "ys = n # vs" using ne by (cases ys) auto
  have l1: "linked h (us @ [p])" and l2: "linked h (n # vs)"
    and pa: "prev (h ! a) = Some p" and an: "next (h ! a) = Some n"
    using l unfolding xs ys by (auto simp: linked_append)
  define h' where "h' = h[p := (h ! p)\<lparr>next := Some n\<rparr>, n := (h ! n)\<lparr>prev := Some p\<rparr>]"
  have neq: "p \<noteq> n" "p \<noteq> a" "n \<noteq> a" "p \<notin> set us" "n \<notin> set vs" "p \<notin> set vs" "n \<notin> set us"
    using d unfolding xs ys by auto
  have bp: "p < length h" "n < length h" "a < length h" using b unfolding xs ys by auto
  have r: "removeNode c h (Some a) = Inr h'"
    using bp neq pa an by (simp add: removeNode_def load_def modify_def h'_def)
  have f1: "linked h' (us @ [p])"
    using l1 neq bp
    by (elim linked_frame) (auto simp: h'_def nth_list_update dest!: in_set_butlastD in_set_tlD)
  have f2: "linked h' (n # vs)"
    using l2 neq bp
    by (elim linked_frame) (auto simp: h'_def nth_list_update dest!: in_set_butlastD in_set_tlD)
  have f3: "next (h' ! p) = Some n" "prev (h' ! n) = Some p"
    using neq bp by (auto simp: h'_def nth_list_update)
  have "linked h' (us @ p # n # vs)"
    using f1 f2 f3 by (simp add: linked_append)
  moreover have "\<forall>x. key (h' ! x) = key (h ! x) \<and> value (h' ! x) = value (h ! x)"
    using bp by (auto simp: h'_def nth_list_update)
  moreover have "\<forall>x. x \<notin> set (xs @ a # ys) \<longrightarrow> h' ! x = h ! x"
    unfolding xs ys by (auto simp: h'_def nth_list_update)
  moreover have "h' ! a = h ! a" using neq by (simp add: h'_def)
  moreover have "length h' = length h" by (simp add: h'_def)
  ultimately show ?thesis using r unfolding xs ys by simp
qed

lemma addNode_linked:
  assumes l: "linked h (p # f # rest)" and d: "distinct (a # p # f # rest)"
    and b: "\<forall>x\<in>set (a # p # f # rest). x < length h" and hc: "head c = Some p"
  shows "\<exists>h'. addNode c h (Some a) = Inr h' \<and> length h' = length h
           \<and> linked h' (p # a # f # rest)
           \<and> (\<forall>x. key (h' ! x) = key (h ! x) \<and> value (h' ! x) = value (h ! x))
           \<and> (\<forall>x. x \<notin> set (a # p # f # rest) \<longrightarrow> h' ! x = h ! x)"
proof -
  have pf: "next (h ! p) = Some f" and l2: "linked h (f # rest)"
    using l by auto
  define h' where "h' = h[a := (h ! a)\<lparr>prev := Some p, next := Some f\<rparr>,
      f := (h ! f)\<lparr>prev := Some a\<rparr>, p := (h ! p)\<lparr>next := Some a\<rparr>]"
  have neq: "a \<noteq> p" "a \<noteq> f" "p \<noteq> f" "a \<notin> set rest" "p \<notin> set rest" "f \<notin> set rest"
    using d by auto
  have bp: "p < length h" "f < length h" "a < length h" using b by auto
  have r: "addNode c h (Some a) = Inr h'"
    using bp neq pf hc by (simp add: addNode_def load_def modify_def h'_def)
  have f2: "linked h' (f # rest)"
    using l2 neq bp
    by (elim linked_frame) (auto simp: h'_def nth_list_update dest!: in_set_butlastD)
  have f3: "next (h' ! p) = Some a" "prev (h' ! a) = Some p" "next (h' ! a) = Some f"
     "prev (h' ! f) = Some a"
    using neq bp by (auto simp: h'_def nth_list_update)
  have "linked h' (p # a # f # rest)"
    using f2 f3 by simp
  moreover have "\<forall>x. key (h' ! x) = key (h ! x) \<and> value (h' ! x) = value (h ! x)"
    using bp by (auto simp: h'_def nth_list_update)
  moreover have "\<forall>x. x \<notin> set (a # p # f # rest) \<longrightarrow> h' ! x = h ! x"
    by (auto simp: h'_def nth_list_update)
  moreover have "length h' = length h" by (simp add: h'_def)
  ultimately show ?thesis using r by simp
qed

lemma walk_linked:
  "linked h (p # ns @ [q]) \<Longrightarrow> distinct (p # ns @ [q]) \<Longrightarrow>
   \<forall>x\<in>set (p # ns @ [q]). x < length h \<Longrightarrow>
   walk h (Some q) (next (h ! p)) = Some (Inr (entries h ns))"
proof (induction ns arbitrary: p)
  case Nil
  then show ?case by (subst walk.simps) (simp add: entries_def)
next
  case (Cons n ns)
  have "walk h (Some q) (next (h ! n)) = Some (Inr (entries h ns))"
    using Cons.prems by (intro Cons.IH) auto
  moreover have "next (h ! p) = Some n" "n \<noteq> q" "n < length h"
    using Cons.prems by auto
  ultimately show ?case
    by (subst walk.simps) (simp add: entries_def load_def)
qed

section \<open>The list between the sentinels\<close>

lemma Display_dll:
  "dll (lru s) (nodes s) ns \<Longrightarrow> Display s = Some (Inr (entries (nodes s) ns))"
  unfolding dll_def Display_def
  by (auto simp: load_def dest!: walk_linked)

lemma dll_bounds:
  "dll c h ns \<Longrightarrow> Some x = head c \<or> Some x = tail c \<or> x \<in> set ns \<Longrightarrow> x < length h"
  unfolding dll_def by auto

lemma dll_distinct: "dll c h ns \<Longrightarrow> distinct ns"
  unfolding dll_def by auto

lemma dll_links:
  assumes "dll c h ns" and len: "length h \<le> length h'"
    and e: "\<forall>x. Some x = head c \<or> Some x = tail c \<or> x \<in> set ns \<longrightarrow>
             prev (h' ! x) = prev (h ! x) \<and> next (h' ! x) = next (h ! x)"
  shows "dll c h' ns"
proof -
  from assms(1) obtain p q where pq: "head c = Some p" "tail c = Some q"
    and d: "distinct (p # ns @ [q])" and b: "\<forall>x\<in>set (p # ns @ [q]). x < length h"
    and l: "linked h (p # ns @ [q])"
    unfolding dll_def by blast
  have e': "\<forall>x\<in>set (p # ns @ [q]). prev (h' ! x) = prev (h ! x) \<and> next (h' ! x) = next (h ! x)"
    using e pq by auto
  have "linked h' (p # ns @ [q])"
    using l by (rule linked_frame) (use e' in \<open>auto dest!: in_set_butlastD in_set_tlD\<close>)
  moreover have "\<forall>x\<in>set (p # ns @ [q]). x < length h'"
    using b len by fastforce
  ultimately show ?thesis unfolding dll_def using pq d by blast
qed

lemma dll_same:
  "dll c h ns \<Longrightarrow> length h \<le> length h' \<Longrightarrow>
   \<forall>x. Some x = head c \<or> Some x = tail c \<or> x \<in> set ns \<longrightarrow> h' ! x = h ! x \<Longrightarrow> dll c h' ns"
  by (erule dll_links) auto

lemma dll_alloc: "dll c h ns \<Longrightarrow> dll c (h @ [n]) ns"
  by (rule dll_same) (auto simp: nth_append dest: dll_bounds)

lemma removeNode_dll:
  assumes "dll c h ns" and a: "a \<in> set ns"
  shows "\<exists>h'. removeNode c h (Some a) = Inr h' \<and> length h' = length h \<and> dll c h' (remove1 a ns)
           \<and> (\<forall>x. key (h' ! x) = key (h ! x) \<and> value (h' ! x) = value (h ! x))
           \<and> (\<forall>x. x \<ge> length h \<longrightarrow> h' ! x = h ! x)"
proof -
  from assms(1) obtain p q where pq: "head c = Some p" "tail c = Some q"
    and d: "distinct (p # ns @ [q])" and b: "\<forall>x\<in>set (p # ns @ [q]). x < length h"
    and l: "linked h (p # ns @ [q])"
    unfolding dll_def by blast
  from a obtain us vs where ns: "ns = us @ a # vs" by (auto dest: split_list)
  have r1: "remove1 a ns = us @ vs" using d unfolding ns by (simp add: remove1_append)
  have "\<exists>h'. removeNode c h (Some a) = Inr h' \<and> length h' = length h
           \<and> linked h' ((p # us) @ (vs @ [q]))
           \<and> (\<forall>x. key (h' ! x) = key (h ! x) \<and> value (h' ! x) = value (h ! x))
           \<and> (\<forall>x. x \<notin> set ((p # us) @ a # (vs @ [q])) \<longrightarrow> h' ! x = h ! x) \<and> h' ! a = h ! a"
    using l d b unfolding ns by (intro removeNode_linked) auto
  then obtain h' where h': "removeNode c h (Some a) = Inr h'" "length h' = length h"
    "linked h' (p # us @ vs @ [q])"
    "\<forall>x. key (h' ! x) = key (h ! x) \<and> value (h' ! x) = value (h ! x)"
    "\<forall>x. x \<notin> set ((p # us) @ a # (vs @ [q])) \<longrightarrow> h' ! x = h ! x"
    by auto
  have "distinct (p # (us @ vs) @ [q])" "\<forall>x\<in>set (p # (us @ vs) @ [q]). x < length h'"
    "linked h' (p # (us @ vs) @ [q])"
    using d b h'(2,3) unfolding ns by auto
  then have "dll c h' (remove1 a ns)"
    unfolding dll_def r1 using pq by blast
  moreover have "\<forall>x. x \<ge> length h \<longrightarrow> h' ! x = h ! x"
  proof (intro allI impI)
    fix x assume "length h \<le> x"
    then have "\<not> x < length h" by simp
    then have "x \<notin> set (p # ns @ [q])" using b by blast
    then show "h' ! x = h ! x" using h'(5) unfolding ns by simp
  qed
  ultimately show ?thesis using h'(1,2,4) by blast
qed

lemma addNode_dll:
  assumes "dll c h ns" and a: "a \<notin> set ns" "Some a \<noteq> head c" "Some a \<noteq> tail c" "a < length h"
  shows "\<exists>h'. addNode c h (Some a) = Inr h' \<and> length h' = length h \<and> dll c h' (a # ns)
           \<and> (\<forall>x. key (h' ! x) = key (h ! x) \<and> value (h' ! x) = value (h ! x))
           \<and> (\<forall>x. x \<ge> length h \<longrightarrow> h' ! x = h ! x)"
proof -
  from assms(1) obtain p q where pq: "head c = Some p" "tail c = Some q"
    and d: "distinct (p # ns @ [q])" and b: "\<forall>x\<in>set (p # ns @ [q]). x < length h"
    and l: "linked h (p # ns @ [q])"
    unfolding dll_def by blast
  obtain f rest where fr: "ns @ [q] = f # rest" by (cases ns) auto
  have "\<exists>h'. addNode c h (Some a) = Inr h' \<and> length h' = length h
           \<and> linked h' (p # a # f # rest)
           \<and> (\<forall>x. key (h' ! x) = key (h ! x) \<and> value (h' ! x) = value (h ! x))
           \<and> (\<forall>x. x \<notin> set (a # p # f # rest) \<longrightarrow> h' ! x = h ! x)"
  proof (rule addNode_linked)
    have sfr: "set (f # rest) = insert q (set ns)"
      using arg_cong[OF fr, of set] by simp
    show "linked h (p # f # rest)" using l fr by simp
    have "distinct (p # f # rest)" using d fr by simp
    moreover have "a \<notin> set (p # f # rest)" using a pq sfr by auto
    ultimately show "distinct (a # p # f # rest)" by simp
    show "\<forall>x\<in>set (a # p # f # rest). x < length h" using b a(4) sfr by auto
    show "head c = Some p" by (rule pq)
  qed
  then obtain h' where h': "addNode c h (Some a) = Inr h'" "length h' = length h"
    "linked h' (p # a # f # rest)"
    "\<forall>x. key (h' ! x) = key (h ! x) \<and> value (h' ! x) = value (h ! x)"
    "\<forall>x. x \<notin> set (a # p # f # rest) \<longrightarrow> h' ! x = h ! x"
    by auto
  have "distinct (p # (a # ns) @ [q])" "\<forall>x\<in>set (p # (a # ns) @ [q]). x < length h'"
    using d b a pq h'(2) by auto
  moreover have "linked h' (p # (a # ns) @ [q])"
    using h'(3) fr by simp
  ultimately have "dll c h' (a # ns)"
    unfolding dll_def using pq by blast
  moreover have "\<forall>x. x \<ge> length h \<longrightarrow> h' ! x = h ! x"
  proof (intro allI impI)
    fix x assume "length h \<le> x"
    then have nx: "\<not> x < length h" by simp
    then have "x \<notin> set (p # ns @ [q])" using b by blast
    then have "x \<notin> set (a # p # f # rest)" using nx a(4) unfolding fr by auto
    then show "h' ! x = h ! x" using h'(5) by blast
  qed
  ultimately show ?thesis using h'(1,2,4) by blast
qed

lemma moveToHead_dll:
  assumes "dll c h ns" and a: "a \<in> set ns"
  shows "\<exists>h'. moveToHead c h (Some a) = Inr h' \<and> length h' = length h
           \<and> dll c h' (a # remove1 a ns)
           \<and> (\<forall>x. key (h' ! x) = key (h ! x) \<and> value (h' ! x) = value (h ! x))"
proof -
  from assms(1) obtain p q where pq: "head c = Some p" "tail c = Some q"
    and d: "distinct (p # ns @ [q])" and b: "\<forall>x\<in>set (p # ns @ [q]). x < length h"
    unfolding dll_def by blast
  from removeNode_dll[OF assms] obtain h1 where h1: "removeNode c h (Some a) = Inr h1"
    "length h1 = length h" "dll c h1 (remove1 a ns)"
    "\<forall>x. key (h1 ! x) = key (h ! x) \<and> value (h1 ! x) = value (h ! x)"
    by blast
  have "\<exists>h'. addNode c h1 (Some a) = Inr h' \<and> length h' = length h1 \<and> dll c h' (a # remove1 a ns)
           \<and> (\<forall>x. key (h' ! x) = key (h1 ! x) \<and> value (h' ! x) = value (h1 ! x))
           \<and> (\<forall>x. x \<ge> length h1 \<longrightarrow> h' ! x = h1 ! x)"
    using h1(2,3) d b a pq by (intro addNode_dll) auto
  then show ?thesis using h1 by (auto simp: moveToHead_def)
qed

lemma popTail_dll:
  assumes "dll c h ns" and ne: "ns \<noteq> []"
  shows "\<exists>h'. popTail c h = Inr (h', Some (last ns)) \<and> length h' = length h
           \<and> dll c h' (butlast ns)
           \<and> (\<forall>x. key (h' ! x) = key (h ! x) \<and> value (h' ! x) = value (h ! x))
           \<and> (\<forall>x. x \<ge> length h \<longrightarrow> h' ! x = h ! x)"
proof -
  from assms(1) obtain p q where pq: "head c = Some p" "tail c = Some q"
    and d: "distinct (p # ns @ [q])" and b: "\<forall>x\<in>set (p # ns @ [q]). x < length h"
    and l: "linked h (p # ns @ [q])"
    unfolding dll_def by blast
  obtain us a where ns: "ns = us @ [a]" using ne by (cases ns rule: rev_cases) auto
  have "linked h ((p # us) @ a # q # [])" using l unfolding ns by simp
  then have qa: "prev (h ! q) = Some a" unfolding linked_append by simp
  have r1: "remove1 a ns = butlast ns" using d unfolding ns by (simp add: remove1_append)
  have "a \<in> set ns" unfolding ns by simp
  from removeNode_dll[OF assms(1) this] qa pq b show ?thesis
    unfolding r1 by (auto simp: popTail_def load_def ns)
qed

section \<open>The map and the list together\<close>

lemma indexed_keys: "indexed m h ns \<Longrightarrow> Mapping.keys m = (\<lambda>a. key (h ! a)) ` set ns"
  unfolding indexed_def keys_dom_lookup by (auto simp: dom_def)

lemma indexed_size: "indexed m h ns \<Longrightarrow> Mapping.size m = length ns"
proof -
  assume i: "indexed m h ns"
  have "Mapping.size m = card (set (map (\<lambda>a. key (h ! a)) ns))"
    using indexed_keys[OF i] by (simp add: Mapping.size_def)
  also have "\<dots> = length (map (\<lambda>a. key (h ! a)) ns)"
    using i unfolding indexed_def by (intro distinct_card) simp
  finally show ?thesis by simp
qed

lemma indexed_lookup:
  "indexed m h ns \<Longrightarrow> k \<in> Mapping.keys m \<Longrightarrow>
   \<exists>a\<in>set ns. Mapping.lookup m k = Some (Some a) \<and> key (h ! a) = k"
  unfolding indexed_def keys_dom_lookup by (auto simp: dom_def)

lemma indexed_cong:
  "indexed m h ns \<Longrightarrow> \<forall>x\<in>set ns. key (h' ! x) = key (h ! x) \<Longrightarrow> indexed m h' ns"
proof -
  assume i: "indexed m h ns" and e: "\<forall>x\<in>set ns. key (h' ! x) = key (h ! x)"
  have m: "map (\<lambda>a. key (h' ! a)) ns = map (\<lambda>a. key (h ! a)) ns"
    using e by simp
  have "(\<exists>a\<in>set ns. p = Some a \<and> key (h' ! a) = k) \<longleftrightarrow> (\<exists>a\<in>set ns. p = Some a \<and> key (h ! a) = k)"
    for p k using e by auto
  then show ?thesis using i unfolding indexed_def m by simp
qed

lemma indexed_front:
  "indexed m h ns \<Longrightarrow> distinct ns \<Longrightarrow> a \<in> set ns \<Longrightarrow> indexed m h (a # remove1 a ns)"
proof -
  assume i: "indexed m h ns" and d: "distinct ns" and a: "a \<in> set ns"
  have inj: "inj_on (\<lambda>a. key (h ! a)) (set ns)"
    using i unfolding indexed_def by (simp add: distinct_map)
  have s: "set (a # remove1 a ns) = set ns" using a d by auto
  have "distinct (a # remove1 a ns)" using d by simp
  then have "distinct (map (\<lambda>a. key (h ! a)) (a # remove1 a ns))"
    using inj unfolding distinct_map s by blast
  then show ?thesis using i unfolding indexed_def s by blast
qed

lemma indexed_update:
  assumes i: "indexed m h ns" and k: "k \<notin> Mapping.keys m" and a: "a \<notin> set ns"
    and ka: "key (h' ! a) = k" and e: "\<forall>x\<in>set ns. key (h' ! x) = key (h ! x)"
  shows "indexed (Mapping.update k (Some a) m) h' (a # ns)"
proof -
  have i': "indexed m h' ns" using i e by (rule indexed_cong)
  have kn: "\<forall>b\<in>set ns. key (h' ! b) \<noteq> k" using k indexed_keys[OF i'] by auto
  have "distinct (map (\<lambda>a. key (h' ! a)) (a # ns))"
    using i' kn ka unfolding indexed_def by auto
  moreover have "\<forall>k' p. Mapping.lookup (Mapping.update k (Some a) m) k' = Some p
       \<longleftrightarrow> (\<exists>b\<in>set (a # ns). p = Some b \<and> key (h' ! b) = k')"
  proof (intro allI)
    fix k' p
    show "Mapping.lookup (Mapping.update k (Some a) m) k' = Some p
       \<longleftrightarrow> (\<exists>b\<in>set (a # ns). p = Some b \<and> key (h' ! b) = k')"
    proof (cases "k' = k")
      case True
      then show ?thesis using kn ka by auto
    next
      case False
      then show ?thesis using i' ka unfolding indexed_def by (auto simp: lookup_update')
    qed
  qed
  ultimately show ?thesis unfolding indexed_def by blast
qed

lemma indexed_delete:
  assumes i: "indexed m h ns" and ne: "ns \<noteq> []"
  shows "indexed (Mapping.delete (key (h ! last ns)) m) h (butlast ns)"
proof -
  obtain us a where ns: "ns = us @ [a]" using ne by (cases ns rule: rev_cases) auto
  have d: "distinct (map (\<lambda>a. key (h ! a)) us)"
    and na0: "key (h ! a) \<notin> (\<lambda>a. key (h ! a)) ` set us"
    using i unfolding indexed_def ns by auto
  have na: "\<forall>b\<in>set us. key (h ! b) \<noteq> key (h ! a)"
    using na0 by (metis imageI)
  have "\<forall>k' p. Mapping.lookup (Mapping.delete (key (h ! a)) m) k' = Some p
       \<longleftrightarrow> (\<exists>b\<in>set us. p = Some b \<and> key (h ! b) = k')"
  proof (intro allI)
    fix k' p
    show "Mapping.lookup (Mapping.delete (key (h ! a)) m) k' = Some p
       \<longleftrightarrow> (\<exists>b\<in>set us. p = Some b \<and> key (h ! b) = k')"
    proof (cases "k' = key (h ! a)")
      case True
      then show ?thesis using na by auto
    next
      case False
      then show ?thesis using i unfolding indexed_def ns by auto
    qed
  qed
  then show ?thesis using d unfolding indexed_def ns by simp
qed

section \<open>The operations preserve the invariant\<close>

lemma Constructor_eq:
  "Constructor h0 zk zv cap =
     Inr \<lparr>nodes = h0 @ [\<lparr>key = zk, value = zv, prev = None, next = Some (Suc (length h0))\<rparr>,
                       \<lparr>key = zk, value = zv, prev = Some (length h0), next = None\<rparr>],
          lru = \<lparr>capacity = cap, cache = Mapping.empty,
                 head = Some (length h0), tail = Some (Suc (length h0))\<rparr>\<rparr>"
  by (simp add: Constructor_def alloc_def modify_def nth_append list_update_append)

lemma Constructor_inv:
  "Constructor h0 zk zv cap = Inr s \<Longrightarrow> cache_inv s [] \<and> capacity (lru s) = cap"
  unfolding Constructor_eq
  by (auto simp: cache_inv_def dll_def indexed_def nth_append)

lemma Get_hit:
  assumes w: "cache_inv s ns" and k: "k \<in> Mapping.keys (cache (lru s))"
  shows "\<exists>a h'. a \<in> set ns \<and> key (nodes s ! a) = k
      \<and> Mapping.lookup (cache (lru s)) k = Some (Some a)
      \<and> Get zv s k = Inr (s\<lparr>nodes := h'\<rparr>, value (nodes s ! a), True)
      \<and> cache_inv (s\<lparr>nodes := h'\<rparr>) (a # remove1 a ns)
      \<and> length h' = length (nodes s)
      \<and> (\<forall>x. key (h' ! x) = key (nodes s ! x) \<and> value (h' ! x) = value (nodes s ! x))"
proof -
  have dl: "dll (lru s) (nodes s) ns" and ix: "indexed (cache (lru s)) (nodes s) ns"
    using w by (auto simp: cache_inv_def)
  from indexed_lookup[OF ix k] obtain a where a: "a \<in> set ns"
    "Mapping.lookup (cache (lru s)) k = Some (Some a)" "key (nodes s ! a) = k"
    by blast
  from moveToHead_dll[OF dl a(1)] obtain h' where h':
    "moveToHead (lru s) (nodes s) (Some a) = Inr h'" "length h' = length (nodes s)"
    "dll (lru s) h' (a # remove1 a ns)"
    "\<forall>x. key (h' ! x) = key (nodes s ! x) \<and> value (h' ! x) = value (nodes s ! x)"
    by blast
  have al: "a < length h'" using dll_bounds[OF dl, of a] a(1) h'(2) by simp
  have g: "Get zv s k = Inr (s\<lparr>nodes := h'\<rparr>, value (nodes s ! a), True)"
    using a(2) h'(1,4) al by (simp add: Get_def load_def)
  have "indexed (cache (lru s)) (nodes s) (a # remove1 a ns)"
    using ix dll_distinct[OF dl] a(1) by (rule indexed_front)
  then have "indexed (cache (lru s)) h' (a # remove1 a ns)"
    by (rule indexed_cong) (use h'(4) in simp)
  then have "cache_inv (s\<lparr>nodes := h'\<rparr>) (a # remove1 a ns)"
    using h'(3) by (simp add: cache_inv_def)
  then show ?thesis using a g h'(2,4) by blast
qed

lemma Put_hit:
  assumes w: "cache_inv s ns" and k: "k \<in> Mapping.keys (cache (lru s))"
  shows "\<exists>a h'. a \<in> set ns \<and> key (nodes s ! a) = k
      \<and> Put s k v = Inr (s\<lparr>nodes := h'\<rparr>)
      \<and> cache_inv (s\<lparr>nodes := h'\<rparr>) (a # remove1 a ns)
      \<and> length h' = length (nodes s)
      \<and> (\<forall>x. key (h' ! x) = key (nodes s ! x))
      \<and> value (h' ! a) = v
      \<and> (\<forall>x. x \<noteq> a \<longrightarrow> value (h' ! x) = value (nodes s ! x))"
proof -
  have dl: "dll (lru s) (nodes s) ns" and ix: "indexed (cache (lru s)) (nodes s) ns"
    using w by (auto simp: cache_inv_def)
  from indexed_lookup[OF ix k] obtain a where a: "a \<in> set ns"
    "Mapping.lookup (cache (lru s)) k = Some (Some a)" "key (nodes s ! a) = k"
    by blast
  have al: "a < length (nodes s)" using dll_bounds[OF dl, of a] a(1) by simp
  define h1 where "h1 = (nodes s)[a := (nodes s ! a)\<lparr>value := v\<rparr>]"
  have m: "modify (nodes s) (Some a) (\<lambda>n. n\<lparr>value := v\<rparr>) = Inr h1"
    using al by (simp add: modify_def h1_def)
  have h1: "length h1 = length (nodes s)" "\<forall>x. key (h1 ! x) = key (nodes s ! x)"
    "value (h1 ! a) = v" "\<forall>x. x \<noteq> a \<longrightarrow> value (h1 ! x) = value (nodes s ! x)"
    "\<forall>x. prev (h1 ! x) = prev (nodes s ! x) \<and> next (h1 ! x) = next (nodes s ! x)"
    using al by (auto simp: h1_def nth_list_update)
  have dl1: "dll (lru s) h1 ns"
    using dl by (rule dll_links) (use h1 in auto)
  from moveToHead_dll[OF dl1 a(1)] obtain h' where h':
    "moveToHead (lru s) h1 (Some a) = Inr h'" "length h' = length h1"
    "dll (lru s) h' (a # remove1 a ns)"
    "\<forall>x. key (h' ! x) = key (h1 ! x) \<and> value (h' ! x) = value (h1 ! x)"
    by blast
  have g: "Put s k v = Inr (s\<lparr>nodes := h'\<rparr>)"
    using a(2) m h'(1) by (simp add: Put_def)
  have "indexed (cache (lru s)) (nodes s) (a # remove1 a ns)"
    using ix dll_distinct[OF dl] a(1) by (rule indexed_front)
  then have "indexed (cache (lru s)) h' (a # remove1 a ns)"
    by (rule indexed_cong) (use h'(4) h1(2) in simp)
  then have "cache_inv (s\<lparr>nodes := h'\<rparr>) (a # remove1 a ns)"
    using h'(3) by (simp add: cache_inv_def)
  moreover have "length h' = length (nodes s)" "\<forall>x. key (h' ! x) = key (nodes s ! x)"
    "value (h' ! a) = v" "\<forall>x. x \<noteq> a \<longrightarrow> value (h' ! x) = value (nodes s ! x)"
    using h' h1 by auto
  ultimately show ?thesis using a g by blast
qed

lemma Put_miss:
  assumes w: "cache_inv s ns" and k: "k \<notin> Mapping.keys (cache (lru s))"
    and ne: "capacity (lru s) \<le> int (length ns) \<longrightarrow> ns \<noteq> []"
  shows "\<exists>s'. Put s k v = Inr s'
      \<and> cache_inv s' (length (nodes s) # (if capacity (lru s) \<le> int (length ns) then butlast ns else ns))
      \<and> capacity (lru s') = capacity (lru s) \<and> head (lru s') = head (lru s)
      \<and> tail (lru s') = tail (lru s)
      \<and> cache (lru s') = Mapping.update k (Some (length (nodes s)))
            (if capacity (lru s) \<le> int (length ns)
             then Mapping.delete (key (nodes s ! last ns)) (cache (lru s)) else cache (lru s))
      \<and> length (nodes s') = Suc (length (nodes s))
      \<and> key (nodes s' ! length (nodes s)) = k \<and> value (nodes s' ! length (nodes s)) = v
      \<and> (\<forall>x<length (nodes s). key (nodes s' ! x) = key (nodes s ! x)
             \<and> value (nodes s' ! x) = value (nodes s ! x))"
proof -
  let ?h = "nodes s" and ?c = "lru s"
  let ?new = "\<lparr>key = k, value = v, prev = None, next = None\<rparr>"
  let ?a = "length ?h"
  define h1 where "h1 = ?h @ [?new]"
  define ms where "ms = (if capacity ?c \<le> int (length ns) then butlast ns else ns)"
  define m where "m = (if capacity ?c \<le> int (length ns)
             then Mapping.delete (key (?h ! last ns)) (cache ?c) else cache ?c)"
  have dl: "dll ?c ?h ns" and ix: "indexed (cache ?c) ?h ns"
    using w by (auto simp: cache_inv_def)
  have sz: "Mapping.size (cache ?c) = length ns" using ix by (rule indexed_size)
  have lk: "Mapping.lookup (cache ?c) k = None"
    using k by (simp add: keys_dom_lookup domIff)
  have dl1: "dll ?c h1 ns" unfolding h1_def using dl by (rule dll_alloc)
  have old: "\<forall>x<?a. h1 ! x = ?h ! x" by (simp add: h1_def nth_append)
  have bnd: "\<forall>x\<in>set ns. x < ?a" using dll_bounds[OF dl] by blast
  have "\<exists>h3. (if capacity ?c \<le> int (Mapping.size (cache ?c))
                    then (case popTail ?c h1 of
                            Inl e \<Rightarrow> Inl e
                          | Inr (h2, tailp) \<Rightarrow>
                              (case load h2 tailp of
                                 Inl e \<Rightarrow> Inl e
                               | Inr t \<Rightarrow> Inr (h2, Mapping.delete (key t) (cache ?c))))
                    else Inr (h1, cache ?c)) = Inr (h3, m)
          \<and> length h3 = Suc ?a \<and> dll ?c h3 ms
          \<and> (\<forall>x. key (h3 ! x) = key (h1 ! x) \<and> value (h3 ! x) = value (h1 ! x))"
  proof (cases "capacity ?c \<le> int (length ns)")
    case True
    then have nn: "ns \<noteq> []" using ne by simp
    from popTail_dll[OF dl1 nn] obtain h2 where h2:
      "popTail ?c h1 = Inr (h2, Some (last ns))" "length h2 = length h1"
      "dll ?c h2 (butlast ns)"
      "\<forall>x. key (h2 ! x) = key (h1 ! x) \<and> value (h2 ! x) = value (h1 ! x)"
      by blast
    have ll: "last ns < ?a" using bnd nn by simp
    then have "key (h2 ! last ns) = key (?h ! last ns)" using h2(4) old by simp
    then show ?thesis
      using True h2 ll by (simp add: sz load_def m_def ms_def h1_def)
  next
    case False
    then show ?thesis using dl1 by (simp add: sz m_def ms_def h1_def)
  qed
  then obtain h3 where h3: "(if capacity ?c \<le> int (Mapping.size (cache ?c))
                    then (case popTail ?c h1 of
                            Inl e \<Rightarrow> Inl e
                          | Inr (h2, tailp) \<Rightarrow>
                              (case load h2 tailp of
                                 Inl e \<Rightarrow> Inl e
                               | Inr t \<Rightarrow> Inr (h2, Mapping.delete (key t) (cache ?c))))
                    else Inr (h1, cache ?c)) = Inr (h3, m)"
     "length h3 = Suc ?a" "dll ?c h3 ms"
     "\<forall>x. key (h3 ! x) = key (h1 ! x) \<and> value (h3 ! x) = value (h1 ! x)"
    by blast
  have sub: "set ms \<subseteq> set ns" unfolding ms_def by (auto dest: in_set_butlastD)
  have fresh: "?a \<notin> set ms" "Some ?a \<noteq> head ?c" "Some ?a \<noteq> tail ?c"
    using dll_bounds[OF dl, of ?a] sub by auto
  have "\<exists>h'. addNode ?c h3 (Some ?a) = Inr h' \<and> length h' = length h3 \<and> dll ?c h' (?a # ms)
           \<and> (\<forall>x. key (h' ! x) = key (h3 ! x) \<and> value (h' ! x) = value (h3 ! x))
           \<and> (\<forall>x. x \<ge> length h3 \<longrightarrow> h' ! x = h3 ! x)"
    using h3(3) fresh by (rule addNode_dll) (simp add: h3(2))
  then obtain h4 where h4: "addNode ?c h3 (Some ?a) = Inr h4" "length h4 = length h3"
    "dll ?c h4 (?a # ms)"
    "\<forall>x. key (h4 ! x) = key (h3 ! x) \<and> value (h4 ! x) = value (h3 ! x)"
    by blast
  define s' where "s' = \<lparr>nodes = h4, lru = ?c\<lparr>cache := Mapping.update k (Some ?a) m\<rparr>\<rparr>"
  have put: "Put s k v = Inr s'"
    unfolding Put_def lk alloc_def h1_def[symmetric] using h3(1) h4(1)
    by (simp add: s'_def h1_def[symmetric])
  have kv: "\<forall>x. key (h4 ! x) = key (h1 ! x) \<and> value (h4 ! x) = value (h1 ! x)"
    using h3(4) h4(4) by simp
  have new: "key (h4 ! ?a) = k" "value (h4 ! ?a) = v"
    using kv by (simp_all add: h1_def)
  have oldkv: "\<forall>x<?a. key (h4 ! x) = key (?h ! x) \<and> value (h4 ! x) = value (?h ! x)"
    using kv old by simp
  have im: "indexed m ?h ms"
    unfolding m_def ms_def using ix ne by (auto intro: indexed_delete)
  have km: "k \<notin> Mapping.keys m" using k unfolding m_def by auto
  have "indexed (Mapping.update k (Some ?a) m) h4 (?a # ms)"
    using im km fresh(1) new(1) by (rule indexed_update) (use oldkv bnd sub in auto)
  then have ci: "cache_inv s' (?a # ms)"
    using h4(3) by (simp add: cache_inv_def s'_def dll_def)
  have f: "capacity (lru s') = capacity ?c" "head (lru s') = head ?c" "tail (lru s') = tail ?c"
    "cache (lru s') = Mapping.update k (Some ?a) m" "nodes s' = h4"
    by (simp_all add: s'_def)
  have "Put s k v = Inr s' \<and> cache_inv s' (?a # ms)
      \<and> capacity (lru s') = capacity ?c \<and> head (lru s') = head ?c \<and> tail (lru s') = tail ?c
      \<and> cache (lru s') = Mapping.update k (Some ?a) m
      \<and> length (nodes s') = Suc ?a
      \<and> key (nodes s' ! ?a) = k \<and> value (nodes s' ! ?a) = v
      \<and> (\<forall>x<?a. key (nodes s' ! x) = key (?h ! x) \<and> value (nodes s' ! x) = value (?h ! x))"
    using put ci f new oldkv h4(2) h3(2) by simp
  then show ?thesis unfolding ms_def m_def by (rule exI[of _ s'])
qed

section \<open>Reachable states\<close>

lemma Display_inv: "cache_inv s ns \<Longrightarrow> Display s = Some (Inr (entries (nodes s) ns))"
  unfolding cache_inv_def by (auto dest: Display_dll)

lemma inv_keys: "cache_inv s ns \<Longrightarrow> Mapping.keys (cache (lru s)) = (\<lambda>a. key (nodes s ! a)) ` set ns"
  unfolding cache_inv_def by (auto dest: indexed_keys)

lemma inv_size: "cache_inv s ns \<Longrightarrow> Mapping.size (cache (lru s)) = length ns"
  unfolding cache_inv_def by (auto dest: indexed_size)

lemma inv_distinct_keys: "cache_inv s ns \<Longrightarrow> distinct (map fst (entries (nodes s) ns))"
  unfolding cache_inv_def indexed_def entries_def by (simp add: comp_def)

lemma inv_inj: "cache_inv s ns \<Longrightarrow> inj_on (\<lambda>a. key (nodes s ! a)) (set ns)"
  unfolding cache_inv_def indexed_def by (simp add: distinct_map)

lemma inv_distinct: "cache_inv s ns \<Longrightarrow> distinct ns"
  unfolding cache_inv_def by (auto dest: dll_distinct)

lemma stored_inv: "cache_inv s ns \<Longrightarrow> stored s k = map_of (entries (nodes s) ns) k"
proof (cases "k \<in> Mapping.keys (cache (lru s))")
  assume w: "cache_inv s ns"
  case True
  have dl: "dll (lru s) (nodes s) ns" and ix: "indexed (cache (lru s)) (nodes s) ns"
    using w by (simp_all add: cache_inv_def)
  from indexed_lookup[OF ix True] obtain a where a: "a \<in> set ns"
    "Mapping.lookup (cache (lru s)) k = Some (Some a)" "key (nodes s ! a) = k"
    by blast
  have "a < length (nodes s)" using dll_bounds[OF dl, of a] a(1) by simp
  then have "stored s k = Some (value (nodes s ! a))"
    using a(2) by (simp add: stored_def load_def)
  moreover have "(k, value (nodes s ! a)) \<in> set (entries (nodes s) ns)"
    using a(1,3) by (auto simp: entries_def)
  then have "map_of (entries (nodes s) ns) k = Some (value (nodes s ! a))"
    using inv_distinct_keys[OF w] by (simp add: map_of_is_SomeI)
  ultimately show ?thesis by simp
next
  assume w: "cache_inv s ns"
  case False
  then have "Mapping.lookup (cache (lru s)) k = None" by (simp add: keys_dom_lookup domIff)
  then have "stored s k = None" by (simp add: stored_def)
  moreover have "k \<notin> fst ` set (entries (nodes s) ns)"
    using False inv_keys[OF w] by (auto simp: entries_def)
  then have "map_of (entries (nodes s) ns) k = None" by (simp add: map_of_eq_None_iff)
  ultimately show ?thesis by simp
qed

lemma ta_append:
  "touched_after ops k k' \<Longrightarrow> k' \<noteq> op_key x \<Longrightarrow> touched_after (ops @ [x]) k k'"
  unfolding touched_after_def by (auto simp: image_iff)

lemma ta_last: "op_key x = k \<Longrightarrow> k' \<noteq> k \<Longrightarrow> touched_after (ops @ [x]) k k'"
  unfolding touched_after_def by (auto intro!: bexI[of _ "length ops"])

lemma ta_keep:
  assumes "sorted_wrt (\<lambda>a b. touched_after ops (kf a) (kf b)) ms"
    and "\<forall>y\<in>set ms. kf y \<noteq> op_key x" and "\<forall>y\<in>set ms. kf' y = kf y"
  shows "sorted_wrt (\<lambda>a b. touched_after (ops @ [x]) (kf' a) (kf' b)) ms"
  using assms(1)
  by (rule sorted_wrt_mono_rel[rotated]) (use assms(2,3) in \<open>auto intro: ta_append\<close>)

lemma ta_front:
  assumes "sorted_wrt (\<lambda>a b. touched_after ops (kf a) (kf b)) ms"
    and "\<forall>y\<in>set ms. kf y \<noteq> op_key x" and "\<forall>y\<in>set ms. kf' y = kf y"
    and "kf' a = op_key x"
  shows "sorted_wrt (\<lambda>a b. touched_after (ops @ [x]) (kf' a) (kf' b)) (a # ms)"
  using ta_keep[OF assms(1,2,3)] assms(2,3,4) by (auto intro: ta_last)

lemma sorted_wrt_remove1: "sorted_wrt R xs \<Longrightarrow> sorted_wrt R (remove1 a xs)"
  by (induction xs) (auto dest: notin_set_remove1)

lemma sorted_wrt_butlast: "sorted_wrt R xs \<Longrightarrow> sorted_wrt R (butlast xs)"
  by (induction xs) (auto dest: in_set_butlastD)

lemma step_inv:
  assumes r: "reach_inv ops cap s ns" and c: "1 \<le> cap"
  shows "\<exists>s' ns'. step zv s x = Inr s' \<and> reach_inv (ops @ [x]) cap s' ns'"
proof -
  let ?kf = "\<lambda>a. key (nodes s ! a)"
  have w: "cache_inv s ns" and cp: "capacity (lru s) = cap" and le: "int (length ns) \<le> cap"
    and so: "sorted_wrt (\<lambda>a b. touched_after ops (?kf a) (?kf b)) ns"
    using r by (simp_all add: reach_inv_def)
  have keys: "Mapping.keys (cache (lru s)) = ?kf ` set ns" using w by (rule inv_keys)
  have inj: "inj_on ?kf (set ns)" using w by (rule inv_inj)
  have dn: "distinct ns" using w by (rule inv_distinct)
  have front: "\<exists>ns'. reach_inv (ops @ [x]) cap (s\<lparr>nodes := h'\<rparr>) ns'"
    if a: "a \<in> set ns" "?kf a = op_key x" and ci: "cache_inv (s\<lparr>nodes := h'\<rparr>) (a # remove1 a ns)"
      and kk: "\<forall>y. key (h' ! y) = ?kf y" for a h'
  proof -
    have "\<forall>y\<in>set (remove1 a ns). ?kf y \<noteq> op_key x"
      using inj a dn by (auto simp: inj_on_def)
    then have "sorted_wrt (\<lambda>a b. touched_after (ops @ [x]) (key (h' ! a)) (key (h' ! b)))
        (a # remove1 a ns)"
      using sorted_wrt_remove1[OF so, of a] kk a(2) by (intro ta_front[where kf = ?kf]) auto
    moreover have "length (a # remove1 a ns) = length ns"
      using a(1) length_pos_if_in_set[OF a(1)] by (simp add: length_remove1)
    ultimately have "reach_inv (ops @ [x]) cap (s\<lparr>nodes := h'\<rparr>) (a # remove1 a ns)"
      using ci cp le by (simp add: reach_inv_def)
    then show ?thesis by blast
  qed
  show ?thesis
  proof (cases x)
    case (GetOp k)
    show ?thesis
    proof (cases "k \<in> Mapping.keys (cache (lru s))")
      case True
      from Get_hit[OF w True, of zv] obtain a h' where g: "a \<in> set ns" "?kf a = k"
        "Get zv s k = Inr (s\<lparr>nodes := h'\<rparr>, value (nodes s ! a), True)"
        "cache_inv (s\<lparr>nodes := h'\<rparr>) (a # remove1 a ns)"
        "\<forall>x. key (h' ! x) = key (nodes s ! x) \<and> value (h' ! x) = value (nodes s ! x)"
        by blast
      have "\<exists>ns'. reach_inv (ops @ [x]) cap (s\<lparr>nodes := h'\<rparr>) ns'"
        using g(1,2,4,5) GetOp by (intro front[of a h']) auto
      then show ?thesis using g(3) GetOp by auto
    next
      case False
      then have g: "Get zv s k = Inr (s, zv, False)"
        by (simp add: Get_def keys_dom_lookup domIff)
      have "\<forall>y\<in>set ns. ?kf y \<noteq> op_key x" using False keys GetOp by auto
      then have "sorted_wrt (\<lambda>a b. touched_after (ops @ [x]) (?kf a) (?kf b)) ns"
        using so by (intro ta_keep[where kf = ?kf]) auto
      then have "reach_inv (ops @ [x]) cap s ns"
        using w cp le by (simp add: reach_inv_def)
      then show ?thesis using g GetOp by auto
    qed
  next
    case (PutOp k v)
    show ?thesis
    proof (cases "k \<in> Mapping.keys (cache (lru s))")
      case True
      from Put_hit[OF w True, of v] obtain a h' where g: "a \<in> set ns" "?kf a = k"
        "Put s k v = Inr (s\<lparr>nodes := h'\<rparr>)"
        "cache_inv (s\<lparr>nodes := h'\<rparr>) (a # remove1 a ns)"
        "\<forall>x. key (h' ! x) = key (nodes s ! x)"
        by blast
      have "\<exists>ns'. reach_inv (ops @ [x]) cap (s\<lparr>nodes := h'\<rparr>) ns'"
        using g(1,2,4,5) PutOp by (intro front[of a h']) auto
      then show ?thesis using g(3) PutOp by auto
    next
      case False
      define ms where "ms = (if capacity (lru s) \<le> int (length ns) then butlast ns else ns)"
      have ne: "capacity (lru s) \<le> int (length ns) \<longrightarrow> ns \<noteq> []" using cp c by auto
      from Put_miss[OF w False ne, of v] obtain s' where p: "Put s k v = Inr s'"
        "cache_inv s' (length (nodes s) # ms)" "capacity (lru s') = capacity (lru s)"
        "key (nodes s' ! length (nodes s)) = k"
        "\<forall>x<length (nodes s). key (nodes s' ! x) = key (nodes s ! x)
             \<and> value (nodes s' ! x) = value (nodes s ! x)"
        unfolding ms_def by blast
      have sub: "set ms \<subseteq> set ns" unfolding ms_def by (auto dest: in_set_butlastD)
      have bnd: "\<forall>y\<in>set ns. y < length (nodes s)"
        using w unfolding cache_inv_def by (auto dest: dll_bounds)
      have sm: "sorted_wrt (\<lambda>a b. touched_after ops (?kf a) (?kf b)) ms"
        unfolding ms_def using so by (simp add: sorted_wrt_butlast)
      have "\<forall>y\<in>set ms. ?kf y \<noteq> op_key x" using False keys PutOp sub by auto
      moreover have "\<forall>y\<in>set ms. key (nodes s' ! y) = ?kf y" using p(5) bnd sub by auto
      ultimately have "sorted_wrt (\<lambda>a b. touched_after (ops @ [x]) (key (nodes s' ! a))
          (key (nodes s' ! b))) (length (nodes s) # ms)"
        using sm p(4) PutOp by (intro ta_front[where kf = ?kf]) auto
      moreover have "int (length (length (nodes s) # ms)) \<le> cap"
        using le cp c unfolding ms_def by auto
      ultimately have "reach_inv (ops @ [x]) cap s' (length (nodes s) # ms)"
        using p(2,3) cp by (simp add: reach_inv_def)
      then show ?thesis using p(1) PutOp by auto
    qed
  qed
qed

lemma run_inv:
  "reach_inv pre cap s ns \<Longrightarrow> 1 \<le> cap \<Longrightarrow>
   \<exists>s' ns'. run zv s xs = Inr s' \<and> reach_inv (pre @ xs) cap s' ns'"
proof (induction xs arbitrary: pre s ns)
  case Nil
  then show ?case by auto
next
  case (Cons x xs)
  from step_inv[OF Cons.prems, of zv x] obtain s1 ns1 where
    s1: "step zv s x = Inr s1" "reach_inv (pre @ [x]) cap s1 ns1" by blast
  from Cons.IH[OF s1(2) Cons.prems(2)] show ?case using s1(1) by simp
qed

lemma session_inv:
  "1 \<le> cap \<Longrightarrow> \<exists>s ns. session h0 zk zv cap ops = Inr s \<and> reach_inv ops cap s ns"
proof -
  assume c: "1 \<le> cap"
  obtain s0 where s0: "Constructor h0 zk zv cap = Inr s0" by (simp add: Constructor_eq)
  have "reach_inv [] cap s0 []"
    using Constructor_inv[OF s0] c by (simp add: reach_inv_def)
  from run_inv[OF this c, of zv ops] show ?thesis using s0 by (simp add: session_def)
qed

lemma Put_initial_fault:
  "cap \<le> 0 \<Longrightarrow> Constructor h0 zk zv cap = Inr s0 \<Longrightarrow> Put s0 k v = Inl NilDereference"
  unfolding Constructor_eq
  by (auto simp: Put_def alloc_def popTail_def load_def removeNode_def modify_def nth_append)

lemma run_nonpositive:
  "cap \<le> 0 \<Longrightarrow> Constructor h0 zk zv cap = Inr s0 \<Longrightarrow> run zv s0 ops = Inr s \<Longrightarrow> s = s0"
proof (induction ops)
  case Nil
  then show ?case by simp
next
  case (Cons x ops)
  have e: "Mapping.lookup (cache (lru s0)) k = None" for k
    using Cons.prems(2) unfolding Constructor_eq by auto
  show ?case
  proof (cases x)
    case (GetOp k)
    then have "step zv s0 x = Inr s0" using e by (simp add: Get_def)
    then show ?thesis using Cons by simp
  next
    case (PutOp k v)
    then have "step zv s0 x = Inl NilDereference"
      using Put_initial_fault[OF Cons.prems(1,2)] by simp
    then show ?thesis using Cons.prems(3) by simp
  qed
qed

lemma session_wf: "session h0 zk zv cap ops = Inr s \<Longrightarrow> \<exists>ns. cache_inv s ns"
proof (cases "1 \<le> cap")
  case True
  assume "session h0 zk zv cap ops = Inr s"
  then show ?thesis using session_inv[OF True, of h0 zk zv ops] by (auto simp: reach_inv_def)
next
  case False
  assume a: "session h0 zk zv cap ops = Inr s"
  obtain s0 where s0: "Constructor h0 zk zv cap = Inr s0" by (simp add: Constructor_eq)
  have "run zv s0 ops = Inr s" using a s0 by (simp add: session_def)
  then have "s = s0" using False s0 by (intro run_nonpositive) auto
  then show ?thesis using Constructor_inv[OF s0] by blast
qed

lemma moveToHead_front:
  assumes "dll c h (a # ns)"
  shows "moveToHead c h (Some a) = Inr h"
proof -
  from assms obtain p q where pq: "head c = Some p" "tail c = Some q"
    and d: "distinct (p # (a # ns) @ [q])" and b: "\<forall>x\<in>set (p # (a # ns) @ [q]). x < length h"
    and l: "linked h (p # (a # ns) @ [q])"
    unfolding dll_def by blast
  obtain f rest where fr: "ns @ [q] = f # rest" by (cases ns) auto
  have sfr: "set (f # rest) = insert q (set ns)" using arg_cong[OF fr, of set] by simp
  have l': "linked h (p # a # f # rest)" using l fr by simp
  have lk: "next (h ! p) = Some a" "prev (h ! a) = Some p" "next (h ! a) = Some f"
    "prev (h ! f) = Some a"
    using l' by auto
  have "f \<in> set (ns @ [q])" unfolding fr by simp
  then have neq: "p \<noteq> a" "p \<noteq> f" "a \<noteq> f" and bp: "p < length h" "a < length h" "f < length h"
    using d b by auto
  define h1 where "h1 = h[p := (h ! p)\<lparr>next := Some f\<rparr>, f := (h ! f)\<lparr>prev := Some p\<rparr>]"
  have r: "removeNode c h (Some a) = Inr h1"
    using lk bp neq by (simp add: removeNode_def load_def modify_def h1_def)
  have h1: "length h1 = length h" "h1 ! a = h ! a" "next (h1 ! p) = Some f"
    using bp neq by (auto simp: h1_def)
  define h2 where "h2 = h1[a := (h1 ! a)\<lparr>prev := Some p, next := Some f\<rparr>,
      f := (h1 ! f)\<lparr>prev := Some a\<rparr>, p := (h1 ! p)\<lparr>next := Some a\<rparr>]"
  have ad: "addNode c h1 (Some a) = Inr h2"
    using bp neq h1 pq by (simp add: addNode_def load_def modify_def h2_def)
  have "h2 = h"
  proof (rule nth_equalityI)
    show "length h2 = length h" by (simp add: h2_def h1_def)
    fix i assume "i < length h2"
    then have i: "i < length h" by (simp add: h2_def h1_def)
    show "h2 ! i = h ! i"
      using i lk neq bp by (auto simp: h2_def h1_def nth_list_update)
  qed
  then show ?thesis using r ad by (simp add: moveToHead_def)
qed

lemma Get_repeated:
  assumes w: "cache_inv s ns" and k: "k \<in> Mapping.keys (cache (lru s))"
  shows "\<exists>s1 v. Get zv s k = Inr (s1, v, True) \<and> Get zv s1 k = Inr (s1, v, True)"
proof -
  from Get_hit[OF w k, of zv] obtain a h' where g: "a \<in> set ns"
    "Mapping.lookup (cache (lru s)) k = Some (Some a)"
    "Get zv s k = Inr (s\<lparr>nodes := h'\<rparr>, value (nodes s ! a), True)"
    "cache_inv (s\<lparr>nodes := h'\<rparr>) (a # remove1 a ns)"
    "length h' = length (nodes s)"
    "\<forall>x. key (h' ! x) = key (nodes s ! x) \<and> value (h' ! x) = value (nodes s ! x)"
    by blast
  have "dll (lru s) h' (a # remove1 a ns)" using g(4) by (simp add: cache_inv_def)
  then have m: "moveToHead (lru s) h' (Some a) = Inr h'" by (rule moveToHead_front)
  have al: "a < length h'" using w g(1,5) unfolding cache_inv_def by (auto dest: dll_bounds)
  have "Get zv (s\<lparr>nodes := h'\<rparr>) k = Inr (s\<lparr>nodes := h'\<rparr>, value (nodes s ! a), True)"
    using g(2,6) m al by (simp add: Get_def load_def)
  then show ?thesis using g(3) by blast
qed

section \<open>What the traversal shows after an operation\<close>

lemma entries_front:
  assumes w: "cache_inv s ns" and a: "a \<in> set ns"
    and kk: "\<forall>x. key (h' ! x) = key (nodes s ! x)"
    and va: "value (h' ! a) = v" and vo: "\<forall>x. x \<noteq> a \<longrightarrow> value (h' ! x) = value (nodes s ! x)"
  shows "entries h' (a # remove1 a ns) =
     (key (nodes s ! a), v) # filter (\<lambda>e. fst e \<noteq> key (nodes s ! a)) (entries (nodes s) ns)"
proof -
  let ?h = "nodes s"
  have inj: "inj_on (\<lambda>a. key (?h ! a)) (set ns)" using w by (rule inv_inj)
  have dn: "distinct ns" using w by (rule inv_distinct)
  have r: "remove1 a ns = filter (\<lambda>x. x \<noteq> a) ns"
    using dn by (simp add: distinct_remove1_removeAll removeAll_filter_not_eq eq_commute)
  have "filter (\<lambda>x. key (?h ! x) \<noteq> key (?h ! a)) ns = filter (\<lambda>x. x \<noteq> a) ns"
    using inj a by (intro filter_cong) (auto simp: inj_on_def)
  then have "filter (\<lambda>e. fst e \<noteq> key (?h ! a)) (entries ?h ns) = entries ?h (filter (\<lambda>x. x \<noteq> a) ns)"
    by (simp add: entries_def filter_map comp_def)
  moreover have "entries h' (filter (\<lambda>x. x \<noteq> a) ns) = entries ?h (filter (\<lambda>x. x \<noteq> a) ns)"
    using kk vo by (simp add: entries_def)
  ultimately show ?thesis using kk va by (simp add: r entries_def)
qed

lemma map_of_filter_key:
  "k' \<noteq> k \<Longrightarrow> map_of (filter (\<lambda>e. fst e \<noteq> k) xs) k' = map_of xs k'"
  by (induction xs) auto

lemma inv_bounds: "cache_inv s ns \<Longrightarrow> \<forall>x\<in>set ns. x < length (nodes s)"
  unfolding cache_inv_def by (auto dest: dll_bounds)

lemma entries_new:
  assumes bnd: "\<forall>x\<in>set ms. x < n"
    and new: "key (h' ! n) = k" "value (h' ! n) = v"
    and old: "\<forall>x<n. key (h' ! x) = key (h ! x) \<and> value (h' ! x) = value (h ! x)"
  shows "entries h' (n # ms) = (k, v) # entries h ms"
  using assms by (simp add: entries_def)

lemma entries_butlast: "entries h (butlast ns) = butlast (entries h ns)"
  by (simp add: entries_def map_butlast)

lemma session_reach:
  "session h0 zk zv cap ops = Inr s \<Longrightarrow> 1 \<le> cap \<Longrightarrow> \<exists>ns. reach_inv ops cap s ns"
  using session_inv[of cap h0 zk zv ops] by auto

section \<open>A concrete session\<close>

lemma demo_session: "session [] 0 0 2 demo_ops = Inr demo_state"
  by code_simp

lemma demo_Display: "Display demo_state = Some (Inr [(1, 10), (2, 20)])"
  by code_simp

lemma demo_keys: "Mapping.keys (cache (lru demo_state)) = {1, 2}"
  by auto

section \<open>The claims\<close>

text \<open>
  In the statements a cache is a state reached by \<open>session\<close>: constructed by \<open>Constructor\<close>
  in some store and then used by a sequence of \<open>Get\<close> and \<open>Put\<close> calls. The ordering
  structure is observed by \<open>Display\<close>, the traversal from the head's successor to the tail;
  \<open>Some (Inr kvs)\<close> says that the traversal ends without a fault and shows the pairs
  \<open>kvs\<close>, front to back. The index is observed by the keys and the size of the map and by
  \<open>stored\<close>.
\<close>

text \<open>
  C1. For every cache constructed with a capacity of at least one and every sequence of
  \<open>Get\<close> and \<open>Put\<close> operations, the sequence runs without a fault, and in the state it
  reaches the traversal ends and the number of entries of the map equals the number of
  entries the traversal shows, which is at most the capacity. The sequence is arbitrary, so
  this holds after each \<open>Put\<close>.
\<close>

theorem size_bound:
  "1 \<le> cap \<Longrightarrow>
   \<exists>s kvs. session h0 zk zv cap ops = Inr s \<and> Display s = Some (Inr kvs)
     \<and> Mapping.size (cache (lru s)) = length kvs \<and> capacity (lru s) = cap
     \<and> int (length kvs) \<le> capacity (lru s)"
proof -
  assume "1 \<le> cap"
  from session_inv[OF this, of h0 zk zv ops] obtain s ns where
    s: "session h0 zk zv cap ops = Inr s" and r: "reach_inv ops cap s ns" by blast
  have w: "cache_inv s ns" using r by (simp add: reach_inv_def)
  have "Display s = Some (Inr (entries (nodes s) ns))" using w by (rule Display_inv)
  moreover have "Mapping.size (cache (lru s)) = length (entries (nodes s) ns)"
    using inv_size[OF w] by (simp add: entries_def)
  moreover have "capacity (lru s) = cap" "int (length (entries (nodes s) ns)) \<le> capacity (lru s)"
    using r by (simp_all add: reach_inv_def entries_def)
  ultimately show ?thesis using s by blast
qed

theorem size_bound_witness:
  "(1::int) \<le> 2 \<and> session [] 0 0 2 demo_ops = Inr demo_state
   \<and> Display demo_state = Some (Inr [(1, 10), (2, 20)])
   \<and> Mapping.size (cache (lru demo_state)) = length [(1::int, 10::int), (2, 20)]
   \<and> int (length [(1::int, 10::int), (2, 20)]) \<le> capacity (lru demo_state)"
  using size_bound [of 2 "[]" 0 0 demo_ops] demo_session demo_Display by auto

text \<open>
  C2. For every cache constructed with a capacity of at least one and every sequence of
  \<open>Get\<close> and \<open>Put\<close> operations, the keys shown by a full traversal, front to back, are
  without repetition and are exactly the keys of the map; moreover the map leads each key to
  the node whose value the traversal shows for it.
\<close>

theorem index_list_correspondence:
  "1 \<le> cap \<Longrightarrow>
   \<exists>s kvs. session h0 zk zv cap ops = Inr s \<and> Display s = Some (Inr kvs)
     \<and> distinct (map fst kvs) \<and> set (map fst kvs) = Mapping.keys (cache (lru s))
     \<and> (\<forall>k. stored s k = map_of kvs k)"
proof -
  assume "1 \<le> cap"
  from session_inv[OF this, of h0 zk zv ops] obtain s ns where
    s: "session h0 zk zv cap ops = Inr s" and r: "reach_inv ops cap s ns" by blast
  have w: "cache_inv s ns" using r by (simp add: reach_inv_def)
  have "Display s = Some (Inr (entries (nodes s) ns))" using w by (rule Display_inv)
  moreover have "distinct (map fst (entries (nodes s) ns))" using w by (rule inv_distinct_keys)
  moreover have "set (map fst (entries (nodes s) ns)) = Mapping.keys (cache (lru s))"
    using inv_keys[OF w] by (simp add: entries_def image_image)
  moreover have "\<forall>k. stored s k = map_of (entries (nodes s) ns) k"
    using stored_inv[OF w] by blast
  ultimately show ?thesis using s by blast
qed

theorem index_list_correspondence_witness:
  "(1::int) \<le> 2 \<and> session [] 0 0 2 demo_ops = Inr demo_state
   \<and> Display demo_state = Some (Inr [(1, 10), (2, 20)])
   \<and> distinct (map fst [(1::int, 10::int), (2, 20)])
   \<and> set (map fst [(1::int, 10::int), (2, 20)]) = Mapping.keys (cache (lru demo_state))
   \<and> stored demo_state 2 = Some 20"
  using index_list_correspondence [of 2 "[]" 0 0 demo_ops] demo_session demo_Display by auto

text \<open>
  C3. For every cache with a capacity of at least one, when \<open>Put\<close> is called with a key
  that is absent while the size equals the capacity: the call succeeds; the traversal loses
  exactly its last entry and gains the new pair at the front; the key of that last entry
  leaves the map and \<open>Get\<close> on it then returns found = false; the new key is in the map
  with the new value; the size is unchanged. The evicted key is the least recently touched:
  every other key of the cache has a touch in the history that is later than every touch of
  the evicted key. (A \<open>Get\<close> that misses counts as a touch here; for a key in the cache the
  last operation naming it is never a miss, so this changes nothing.)
\<close>

theorem Put_evicts_least_recent:
  assumes s: "session h0 zk zv cap ops = Inr s" and c: "1 \<le> cap"
    and k: "k \<notin> Mapping.keys (cache (lru s))"
    and full: "int (Mapping.size (cache (lru s))) = capacity (lru s)"
  shows "\<exists>kvs s'. Display s = Some (Inr kvs) \<and> kvs \<noteq> []
     \<and> Put s k v = Inr s'
     \<and> Display s' = Some (Inr ((k, v) # butlast kvs))
     \<and> Mapping.keys (cache (lru s')) = insert k (Mapping.keys (cache (lru s)) - {fst (last kvs)})
     \<and> fst (last kvs) \<in> Mapping.keys (cache (lru s))
     \<and> Get zv s' (fst (last kvs)) = Inr (s', zv, False)
     \<and> stored s' k = Some v
     \<and> Mapping.size (cache (lru s')) = Mapping.size (cache (lru s))
     \<and> (\<forall>k'\<in>Mapping.keys (cache (lru s)). k' \<noteq> fst (last kvs) \<longrightarrow>
           touched_after ops k' (fst (last kvs)))"
proof -
  let ?h = "nodes s"
  let ?kf = "\<lambda>a. key (?h ! a)"
  from session_reach[OF s c] obtain ns where r: "reach_inv ops cap s ns" by blast
  have w: "cache_inv s ns" and cp: "capacity (lru s) = cap"
    and so: "sorted_wrt (\<lambda>a b. touched_after ops (?kf a) (?kf b)) ns"
    using r by (simp_all add: reach_inv_def)
  have sz: "Mapping.size (cache (lru s)) = length ns" using w by (rule inv_size)
  have ln: "capacity (lru s) \<le> int (length ns)" using full sz by simp
  have nn: "ns \<noteq> []" using full sz cp c by auto
  define kvs where "kvs = entries ?h ns"
  have d: "Display s = Some (Inr kvs)" unfolding kvs_def using w by (rule Display_inv)
  have kn: "kvs \<noteq> []" using nn by (simp add: kvs_def entries_def)
  have lk: "fst (last kvs) = ?kf (last ns)" using nn by (simp add: kvs_def entries_def last_map)
  have keys: "Mapping.keys (cache (lru s)) = ?kf ` set ns" using w by (rule inv_keys)
  from Put_miss[OF w k, of v] nn ln obtain s' where p: "Put s k v = Inr s'"
    "cache_inv s' (length ?h # butlast ns)"
    "cache (lru s') = Mapping.update k (Some (length ?h))
        (Mapping.delete (?kf (last ns)) (cache (lru s)))"
    "key (nodes s' ! length ?h) = k" "value (nodes s' ! length ?h) = v"
    "\<forall>x<length ?h. key (nodes s' ! x) = key (?h ! x) \<and> value (nodes s' ! x) = value (?h ! x)"
    by auto
  have bb: "\<forall>x\<in>set (butlast ns). x < length ?h"
    using inv_bounds[OF w] by (auto dest: in_set_butlastD)
  have "entries (nodes s') (length ?h # butlast ns) = (k, v) # entries ?h (butlast ns)"
    using bb p(4,5,6) by (rule entries_new)
  then have d': "Display s' = Some (Inr ((k, v) # butlast kvs))"
    using Display_inv[OF p(2)] by (simp add: entries_butlast kvs_def)
  have ks: "Mapping.keys (cache (lru s')) = insert k (Mapping.keys (cache (lru s)) - {fst (last kvs)})"
    using p(3) lk by simp
  have lin: "fst (last kvs) \<in> Mapping.keys (cache (lru s))" using keys lk nn by simp
  have "fst (last kvs) \<noteq> k" using lin k by auto
  then have "fst (last kvs) \<notin> Mapping.keys (cache (lru s'))" using ks by simp
  then have g: "Get zv s' (fst (last kvs)) = Inr (s', zv, False)"
    by (simp add: Get_def keys_dom_lookup domIff)
  have "stored s' k = map_of ((k, v) # butlast kvs) k"
    using stored_inv[OF p(2), of k] d' Display_inv[OF p(2)] by simp
  then have st: "stored s' k = Some v" by simp
  have "Mapping.size (cache (lru s')) = length (length ?h # butlast ns)"
    using p(2) by (rule inv_size)
  then have sz': "Mapping.size (cache (lru s')) = Mapping.size (cache (lru s))"
    using sz nn by simp
  have "ns = butlast ns @ [last ns]" using nn by simp
  then have "sorted_wrt (\<lambda>a b. touched_after ops (?kf a) (?kf b)) (butlast ns @ [last ns])"
    using so by simp
  then have later: "\<forall>a\<in>set (butlast ns). touched_after ops (?kf a) (?kf (last ns))"
    unfolding sorted_wrt_append by simp
  have ta: "\<forall>k'\<in>Mapping.keys (cache (lru s)). k' \<noteq> fst (last kvs) \<longrightarrow>
           touched_after ops k' (fst (last kvs))"
  proof (intro ballI impI)
    fix k' assume k': "k' \<in> Mapping.keys (cache (lru s))" "k' \<noteq> fst (last kvs)"
    then obtain a where a: "a \<in> set ns" "?kf a = k'" using keys by auto
    then have "a \<noteq> last ns" using k'(2) lk by auto
    moreover have "set ns = insert (last ns) (set (butlast ns))"
      using nn by (metis append_butlast_last_id list.simps(15) rotate1.simps(2) set_rotate1)
    ultimately have "a \<in> set (butlast ns)" using a(1) by auto
    then show "touched_after ops k' (fst (last kvs))" using later a(2) lk by auto
  qed
  show ?thesis using d kn p(1) d' ks lin g st sz' ta by blast
qed

theorem Put_evicts_least_recent_witness:
  "session [] 0 0 2 demo_ops = Inr demo_state \<and> (1::int) \<le> 2
   \<and> 3 \<notin> Mapping.keys (cache (lru demo_state))
   \<and> int (Mapping.size (cache (lru demo_state))) = capacity (lru demo_state)
   \<and> (\<exists>s'. Put demo_state 3 30 = Inr s' \<and> Display s' = Some (Inr [(3, 30), (1, 10)])
         \<and> Get 0 s' 2 = Inr (s', 0, False) \<and> stored s' 3 = Some 30
         \<and> Mapping.keys (cache (lru s')) = {1, 3} \<and> touched_after demo_ops 1 2)"
proof -
  have a: "3 \<notin> Mapping.keys (cache (lru demo_state))"
    "int (Mapping.size (cache (lru demo_state))) = capacity (lru demo_state)"
    by code_simp+
  from Put_evicts_least_recent [OF demo_session _ a, where v = 30]
  obtain kvs s' where r: "Display demo_state = Some (Inr kvs)" "Put demo_state 3 30 = Inr s'"
     "Display s' = Some (Inr ((3, 30) # butlast kvs))"
     "Mapping.keys (cache (lru s')) =
        insert 3 (Mapping.keys (cache (lru demo_state)) - {fst (last kvs)})"
     "Get 0 s' (fst (last kvs)) = Inr (s', 0, False)" "stored s' 3 = Some 30"
     "\<forall>k'\<in>Mapping.keys (cache (lru demo_state)). k' \<noteq> fst (last kvs) \<longrightarrow>
           touched_after demo_ops k' (fst (last kvs))"
    by auto
  have kvs: "kvs = [(1, 10), (2, 20)]" using r(1) demo_Display by simp
  have "touched_after demo_ops 1 2" using r(7) unfolding kvs demo_keys by simp
  moreover have "Mapping.keys (cache (lru s')) = {1, 3}" using r(4) unfolding kvs by auto
  ultimately show ?thesis using r(2,3,5,6) a demo_session unfolding kvs by auto
qed

text \<open>
  C4. For every cache with a capacity of at least one: any \<open>Put(k, v)\<close> succeeds and
  afterwards the traversal starts with \<open>(k, v)\<close>; when \<open>k\<close> is in the cache, \<open>Get(k)\<close>
  returns found = true and afterwards the traversal starts with \<open>k\<close> and the value
  returned; and \<open>Get(k)\<close> returns found = true only when \<open>k\<close> is in the cache.
\<close>

theorem touched_key_first:
  assumes s: "session h0 zk zv cap ops = Inr s" and c: "1 \<le> cap"
  shows "(\<exists>s' rest. Put s k v = Inr s' \<and> Display s' = Some (Inr ((k, v) # rest)))
     \<and> (k \<in> Mapping.keys (cache (lru s)) \<longrightarrow>
          (\<exists>s' w rest. Get zv s k = Inr (s', w, True) \<and> Display s' = Some (Inr ((k, w) # rest))))
     \<and> (\<forall>s' w. Get zv s k = Inr (s', w, True) \<longrightarrow> k \<in> Mapping.keys (cache (lru s)))"
proof -
  from session_reach[OF s c] obtain ns where r: "reach_inv ops cap s ns" by blast
  have w: "cache_inv s ns" and cp: "capacity (lru s) = cap"
    using r by (simp_all add: reach_inv_def)
  have put: "\<exists>s' rest. Put s k v = Inr s' \<and> Display s' = Some (Inr ((k, v) # rest))"
  proof (cases "k \<in> Mapping.keys (cache (lru s))")
    case True
    from Put_hit[OF w True, of v] obtain a h' where g: "a \<in> set ns" "key (nodes s ! a) = k"
      "Put s k v = Inr (s\<lparr>nodes := h'\<rparr>)"
      "cache_inv (s\<lparr>nodes := h'\<rparr>) (a # remove1 a ns)"
      "\<forall>x. key (h' ! x) = key (nodes s ! x)" "value (h' ! a) = v"
      by blast
    have "Display (s\<lparr>nodes := h'\<rparr>) = Some (Inr (entries h' (a # remove1 a ns)))"
      using Display_inv[OF g(4)] by simp
    then show ?thesis using g(2,3,5,6) by (auto simp: entries_def)
  next
    case False
    have ne: "capacity (lru s) \<le> int (length ns) \<longrightarrow> ns \<noteq> []" using cp c by auto
    from Put_miss[OF w False ne, of v] obtain s' ms where p: "Put s k v = Inr s'"
      "cache_inv s' (length (nodes s) # ms)"
      "key (nodes s' ! length (nodes s)) = k" "value (nodes s' ! length (nodes s)) = v"
      by blast
    show ?thesis using p(1,3,4) Display_inv[OF p(2)] by (auto simp: entries_def)
  qed
  have get: "\<exists>s' w rest. Get zv s k = Inr (s', w, True) \<and> Display s' = Some (Inr ((k, w) # rest))"
    if "k \<in> Mapping.keys (cache (lru s))"
  proof -
    from Get_hit[OF w that, of zv] obtain a h' where g: "a \<in> set ns" "key (nodes s ! a) = k"
      "Get zv s k = Inr (s\<lparr>nodes := h'\<rparr>, value (nodes s ! a), True)"
      "cache_inv (s\<lparr>nodes := h'\<rparr>) (a # remove1 a ns)"
      "\<forall>x. key (h' ! x) = key (nodes s ! x) \<and> value (h' ! x) = value (nodes s ! x)"
      by blast
    have "Display (s\<lparr>nodes := h'\<rparr>) = Some (Inr (entries h' (a # remove1 a ns)))"
      using Display_inv[OF g(4)] by simp
    then show ?thesis using g(2,3,5) by (auto simp: entries_def)
  qed
  have "k \<in> Mapping.keys (cache (lru s))" if "Get zv s k = Inr (s', w, True)" for s' w
    using that by (cases "k \<in> Mapping.keys (cache (lru s))")
      (auto simp: Get_def keys_dom_lookup domIff)
  then show ?thesis using put get by blast
qed

theorem touched_key_first_witness:
  "session [] 0 0 2 demo_ops = Inr demo_state \<and> (1::int) \<le> 2
   \<and> 2 \<in> Mapping.keys (cache (lru demo_state))
   \<and> (\<exists>s' rest. Put demo_state 2 7 = Inr s' \<and> Display s' = Some (Inr ((2, 7) # rest)))
   \<and> (\<exists>s' w rest. Get 0 demo_state 2 = Inr (s', w, True)
         \<and> Display s' = Some (Inr ((2, w) # rest)))"
proof -
  have a: "2 \<in> Mapping.keys (cache (lru demo_state))" by simp
  from touched_key_first [OF demo_session, where k = 2 and v = 7] a demo_session
  show ?thesis by simp
qed

text \<open>
  C5. For every cache and every key \<open>k\<close> in it, \<open>Get(k)\<close> returns found = true with the
  value stored for \<open>k\<close>; the value stored for every key is the same before and after; the
  map is unchanged; the traversal afterwards is the traversal before with the entry of \<open>k\<close>
  moved to the front.
\<close>

theorem Get_present:
  assumes s: "session h0 zk zv cap ops = Inr s" and k: "k \<in> Mapping.keys (cache (lru s))"
  shows "\<exists>s' v kvs. Get zv s k = Inr (s', v, True) \<and> stored s k = Some v
     \<and> (\<forall>k'. stored s' k' = stored s k')
     \<and> cache (lru s') = cache (lru s)
     \<and> Display s = Some (Inr kvs)
     \<and> Display s' = Some (Inr ((k, v) # filter (\<lambda>e. fst e \<noteq> k) kvs))"
proof -
  from session_wf[OF s] obtain ns where w: "cache_inv s ns" by blast
  from Get_hit[OF w k, of zv] obtain a h' where g: "a \<in> set ns" "key (nodes s ! a) = k"
    "Mapping.lookup (cache (lru s)) k = Some (Some a)"
    "Get zv s k = Inr (s\<lparr>nodes := h'\<rparr>, value (nodes s ! a), True)"
    "cache_inv (s\<lparr>nodes := h'\<rparr>) (a # remove1 a ns)"
    "\<forall>x. key (h' ! x) = key (nodes s ! x) \<and> value (h' ! x) = value (nodes s ! x)"
    by blast
  let ?s' = "s\<lparr>nodes := h'\<rparr>" and ?v = "value (nodes s ! a)"
  let ?kvs = "entries (nodes s) ns"
  have e: "entries h' (a # remove1 a ns) = (k, ?v) # filter (\<lambda>e. fst e \<noteq> k) ?kvs"
    using entries_front[OF w g(1), of h' ?v] g(2,6) by simp
  have d: "Display s = Some (Inr ?kvs)" using w by (rule Display_inv)
  have d': "Display ?s' = Some (Inr ((k, ?v) # filter (\<lambda>e. fst e \<noteq> k) ?kvs))"
    using Display_inv[OF g(5)] e by simp
  have "a < length (nodes s)" using inv_bounds[OF w] g(1) by simp
  then have st: "stored s k = Some ?v" using g(3) by (simp add: stored_def load_def)
  have "stored ?s' k' = stored s k'" for k'
  proof -
    have "stored ?s' k' = map_of ((k, ?v) # filter (\<lambda>e. fst e \<noteq> k) ?kvs) k'"
      using stored_inv[OF g(5), of k'] e by simp
    also have "\<dots> = map_of ?kvs k'"
    proof (cases "k' = k")
      case True
      then show ?thesis using st stored_inv[OF w, of k] by simp
    next
      case False
      then show ?thesis by (simp add: map_of_filter_key)
    qed
    finally show ?thesis using stored_inv[OF w, of k'] by simp
  qed
  then show ?thesis using g(4) st d d' by (intro exI[of _ ?s'] exI[of _ ?v] exI[of _ ?kvs]) simp
qed

theorem Get_present_witness:
  "session [] 0 0 2 demo_ops = Inr demo_state \<and> 2 \<in> Mapping.keys (cache (lru demo_state))
   \<and> (\<exists>s'. Get 0 demo_state 2 = Inr (s', 20, True)
         \<and> Display s' = Some (Inr [(2, 20), (1, 10)])
         \<and> cache (lru s') = cache (lru demo_state) \<and> stored s' 1 = stored demo_state 1)"
proof -
  have a: "2 \<in> Mapping.keys (cache (lru demo_state))" by simp
  have st: "stored demo_state 2 = Some 20" by code_simp
  from Get_present [OF demo_session a]
  obtain s' v kvs where r: "Get 0 demo_state 2 = Inr (s', v, True)"
    "stored demo_state 2 = Some v" "\<forall>k'. stored s' k' = stored demo_state k'"
    "cache (lru s') = cache (lru demo_state)" "Display demo_state = Some (Inr kvs)"
    "Display s' = Some (Inr ((2, v) # filter (\<lambda>e. fst e \<noteq> 2) kvs))"
    by blast
  have kvs: "kvs = [(1, 10), (2, 20)]" using r(5) demo_Display by simp
  have v: "v = 20" using r(2) st by simp
  show ?thesis using r(1,3,4,6) a demo_session unfolding kvs v by auto
qed

text \<open>
  C6. For every cache and every key \<open>k\<close> in it, \<open>Put(k, v)\<close> succeeds; afterwards \<open>v\<close> is
  stored for \<open>k\<close> and every other key keeps its value; the map, and with it the key set,
  the size and the node of \<open>k\<close>, is unchanged, so nothing is evicted; the traversal
  afterwards is \<open>(k, v)\<close> followed by the entries of the other keys in their old order, and
  is as long as before.
\<close>

theorem Put_present:
  assumes s: "session h0 zk zv cap ops = Inr s" and k: "k \<in> Mapping.keys (cache (lru s))"
  shows "\<exists>s' kvs. Put s k v = Inr s' \<and> stored s' k = Some v
     \<and> (\<forall>k'. k' \<noteq> k \<longrightarrow> stored s' k' = stored s k')
     \<and> cache (lru s') = cache (lru s)
     \<and> Display s = Some (Inr kvs)
     \<and> Display s' = Some (Inr ((k, v) # filter (\<lambda>e. fst e \<noteq> k) kvs))
     \<and> length ((k, v) # filter (\<lambda>e. fst e \<noteq> k) kvs) = length kvs"
proof -
  from session_wf[OF s] obtain ns where w: "cache_inv s ns" by blast
  from Put_hit[OF w k, of v] obtain a h' where g: "a \<in> set ns" "key (nodes s ! a) = k"
    "Put s k v = Inr (s\<lparr>nodes := h'\<rparr>)"
    "cache_inv (s\<lparr>nodes := h'\<rparr>) (a # remove1 a ns)"
    "\<forall>x. key (h' ! x) = key (nodes s ! x)" "value (h' ! a) = v"
    "\<forall>x. x \<noteq> a \<longrightarrow> value (h' ! x) = value (nodes s ! x)"
    by blast
  let ?s' = "s\<lparr>nodes := h'\<rparr>"
  let ?kvs = "entries (nodes s) ns"
  have e: "entries h' (a # remove1 a ns) = (k, v) # filter (\<lambda>e. fst e \<noteq> k) ?kvs"
    using entries_front[OF w g(1,5,6,7)] g(2) by simp
  have d: "Display s = Some (Inr ?kvs)" using w by (rule Display_inv)
  have d': "Display ?s' = Some (Inr ((k, v) # filter (\<lambda>e. fst e \<noteq> k) ?kvs))"
    using Display_inv[OF g(4)] e by simp
  have st: "stored ?s' k' = map_of ((k, v) # filter (\<lambda>e. fst e \<noteq> k) ?kvs) k'" for k'
    using stored_inv[OF g(4), of k'] e by simp
  have st1: "stored ?s' k = Some v" using st[of k] by simp
  have st2: "\<forall>k'. k' \<noteq> k \<longrightarrow> stored ?s' k' = stored s k'"
    using st stored_inv[OF w] by (simp add: map_of_filter_key)
  have "length (entries h' (a # remove1 a ns)) = length ?kvs"
    using g(1) length_pos_if_in_set[OF g(1)] by (simp add: entries_def length_remove1)
  then have len: "length ((k, v) # filter (\<lambda>e. fst e \<noteq> k) ?kvs) = length ?kvs"
    using e by simp
  show ?thesis using g(3) st1 st2 d d' len by (intro exI[of _ ?s'] exI[of _ ?kvs]) simp
qed

theorem Put_present_witness:
  "session [] 0 0 2 demo_ops = Inr demo_state \<and> 2 \<in> Mapping.keys (cache (lru demo_state))
   \<and> (\<exists>s'. Put demo_state 2 99 = Inr s' \<and> stored s' 2 = Some 99
         \<and> Display s' = Some (Inr [(2, 99), (1, 10)])
         \<and> cache (lru s') = cache (lru demo_state) \<and> stored s' 1 = stored demo_state 1)"
proof -
  have a: "2 \<in> Mapping.keys (cache (lru demo_state))" by simp
  from Put_present [OF demo_session a, where v = 99]
  obtain s' kvs where r: "Put demo_state 2 99 = Inr s'" "stored s' 2 = Some 99"
    "\<forall>k'. k' \<noteq> 2 \<longrightarrow> stored s' k' = stored demo_state k'"
    "cache (lru s') = cache (lru demo_state)" "Display demo_state = Some (Inr kvs)"
    "Display s' = Some (Inr ((2, 99) # filter (\<lambda>e. fst e \<noteq> 2) kvs))"
    by blast
  have kvs: "kvs = [(1, 10), (2, 20)]" using r(5) demo_Display by simp
  show ?thesis using r(1,2,3,4,6) a demo_session unfolding kvs by auto
qed

text \<open>
  C7. For every cache and every key absent from it, \<open>Get\<close> returns the zero value with
  found = false, as an ordinary result, and the state it returns is the state it was given:
  map, links and values are untouched.
\<close>

theorem Get_absent_unchanged:
  "k \<notin> Mapping.keys (cache (lru s)) \<Longrightarrow> Get zv s k = Inr (s, zv, False)"
  by (simp add: Get_def keys_dom_lookup domIff)

theorem Get_absent_unchanged_witness:
  "session [] 0 0 2 demo_ops = Inr demo_state \<and> 5 \<notin> Mapping.keys (cache (lru demo_state))
   \<and> Get 0 demo_state 5 = Inr (demo_state, 0, False)"
proof -
  have a: "5 \<notin> Mapping.keys (cache (lru demo_state))" by simp
  from Get_absent_unchanged [OF a] have "Get 0 demo_state 5 = Inr (demo_state, 0, False)" .
  with a demo_session show ?thesis by blast
qed

text \<open>
  C8. For every cache and every key \<open>k\<close> in it, two calls of \<open>Get(k)\<close> in succession
  return the same value with found = true, and the second call returns the very state that
  the first call returned: map, links and values are equal.
\<close>

theorem Get_twice_same:
  assumes s: "session h0 zk zv cap ops = Inr s" and k: "k \<in> Mapping.keys (cache (lru s))"
  shows "\<exists>s1 v. Get zv s k = Inr (s1, v, True) \<and> Get zv s1 k = Inr (s1, v, True)"
proof -
  from session_wf[OF s] obtain ns where w: "cache_inv s ns" by blast
  from w k show ?thesis by (rule Get_repeated)
qed

theorem Get_twice_same_witness:
  "session [] 0 0 2 demo_ops = Inr demo_state \<and> 2 \<in> Mapping.keys (cache (lru demo_state))
   \<and> (\<exists>s1 v. Get 0 demo_state 2 = Inr (s1, v, True) \<and> Get 0 s1 2 = Inr (s1, v, True))"
proof -
  have a: "2 \<in> Mapping.keys (cache (lru demo_state))" by simp
  from Get_twice_same [OF demo_session a] a demo_session
  show ?thesis by blast
qed

text \<open>
  C9. For every cache constructed with a capacity of at least one and every sequence of
  operations: the sequence runs without a fault, and in the state reached every \<open>Get\<close> and
  every \<open>Put\<close> returns without a fault. Whenever the test that guards \<open>popTail\<close> in
  \<open>Put\<close> holds (the capacity is at most the length of the map), the traversal shows at
  least one entry, and \<open>popTail\<close>, run as \<open>Put\<close> runs it (after the new node is allocated),
  returns a node that is neither sentinel and that the map holds under its key.
\<close>

theorem popTail_only_on_live:
  assumes c: "1 \<le> cap"
  shows "\<exists>s. session h0 zk zv cap ops = Inr s
     \<and> (\<forall>k. \<exists>r. Get zv s k = Inr r) \<and> (\<forall>k v. \<exists>s'. Put s k v = Inr s')
     \<and> (capacity (lru s) \<le> int (Mapping.size (cache (lru s))) \<longrightarrow>
          (\<exists>kvs. Display s = Some (Inr kvs) \<and> kvs \<noteq> [])
          \<and> (\<forall>n. \<exists>h' a. popTail (lru s) (fst (alloc (nodes s) n)) = Inr (h', Some a)
                \<and> Some a \<noteq> head (lru s) \<and> Some a \<noteq> tail (lru s)
                \<and> Mapping.lookup (cache (lru s)) (key (nodes s ! a)) = Some (Some a)))"
proof -
  from session_inv[OF c, of h0 zk zv ops] obtain s ns where
    s: "session h0 zk zv cap ops = Inr s" and r: "reach_inv ops cap s ns" by blast
  have w: "cache_inv s ns" and cp: "capacity (lru s) = cap"
    using r by (simp_all add: reach_inv_def)
  have dl: "dll (lru s) (nodes s) ns" and ix: "indexed (cache (lru s)) (nodes s) ns"
    using w by (simp_all add: cache_inv_def)
  have get: "\<exists>r. Get zv s k = Inr r" for k
    using step_inv[OF r c, of zv "GetOp k"] by (auto split: sum.splits)
  have put: "\<exists>s'. Put s k v = Inr s'" for k v
    using step_inv[OF r c, of zv "PutOp k v"] by auto
  have ev: "(\<exists>kvs. Display s = Some (Inr kvs) \<and> kvs \<noteq> [])
          \<and> (\<forall>n. \<exists>h' a. popTail (lru s) (fst (alloc (nodes s) n)) = Inr (h', Some a)
                \<and> Some a \<noteq> head (lru s) \<and> Some a \<noteq> tail (lru s)
                \<and> Mapping.lookup (cache (lru s)) (key (nodes s ! a)) = Some (Some a))"
    if full: "capacity (lru s) \<le> int (Mapping.size (cache (lru s)))"
  proof -
    have nn: "ns \<noteq> []" using full inv_size[OF w] cp c by auto
    have "Display s = Some (Inr (entries (nodes s) ns))" using w by (rule Display_inv)
    moreover have "entries (nodes s) ns \<noteq> []" using nn by (simp add: entries_def)
    moreover have "\<exists>h' a. popTail (lru s) (fst (alloc (nodes s) n)) = Inr (h', Some a)
                \<and> Some a \<noteq> head (lru s) \<and> Some a \<noteq> tail (lru s)
                \<and> Mapping.lookup (cache (lru s)) (key (nodes s ! a)) = Some (Some a)" for n
    proof -
      have "dll (lru s) (nodes s @ [n]) ns" using dl by (rule dll_alloc)
      from popTail_dll[OF this nn] obtain h' where
        "popTail (lru s) (nodes s @ [n]) = Inr (h', Some (last ns))" by blast
      moreover have "last ns \<in> set ns" using nn by simp
      then have "Some (last ns) \<noteq> head (lru s)" "Some (last ns) \<noteq> tail (lru s)"
        "Mapping.lookup (cache (lru s)) (key (nodes s ! last ns)) = Some (Some (last ns))"
        using dl ix unfolding dll_def indexed_def by auto
      ultimately show ?thesis by (auto simp: alloc_def)
    qed
    ultimately show ?thesis by blast
  qed
  show ?thesis using s get put ev by blast
qed

theorem popTail_only_on_live_witness:
  "(1::int) \<le> 2 \<and> session [] 0 0 2 demo_ops = Inr demo_state
   \<and> capacity (lru demo_state) \<le> int (Mapping.size (cache (lru demo_state)))
   \<and> (\<exists>s'. Put demo_state 3 30 = Inr s')
   \<and> (\<exists>h' a. popTail (lru demo_state)
          (fst (alloc (nodes demo_state) \<lparr>key = 3, value = 30, prev = None, next = None\<rparr>))
            = Inr (h', Some a)
         \<and> Some a \<noteq> head (lru demo_state)
         \<and> Mapping.lookup (cache (lru demo_state)) (key (nodes demo_state ! a)) = Some (Some a))"
proof -
  have a: "capacity (lru demo_state) \<le> int (Mapping.size (cache (lru demo_state)))"
    by code_simp
  from popTail_only_on_live [where cap = 2 and ?h0.0 = "[]" and zk = 0 and zv = 0 and ops = demo_ops] demo_session
  have r: "\<forall>k v. \<exists>s'. Put demo_state k v = Inr s'"
    "capacity (lru demo_state) \<le> int (Mapping.size (cache (lru demo_state))) \<longrightarrow>
       (\<forall>n. \<exists>h' a. popTail (lru demo_state) (fst (alloc (nodes demo_state) n)) = Inr (h', Some a)
                \<and> Some a \<noteq> head (lru demo_state) \<and> Some a \<noteq> tail (lru demo_state)
                \<and> Mapping.lookup (cache (lru demo_state)) (key (nodes demo_state ! a))
                     = Some (Some a))"
    by auto
  from r(2) a have "\<forall>n. \<exists>h' a. popTail (lru demo_state) (fst (alloc (nodes demo_state) n))
         = Inr (h', Some a)
       \<and> Some a \<noteq> head (lru demo_state) \<and> Some a \<noteq> tail (lru demo_state)
       \<and> Mapping.lookup (cache (lru demo_state)) (key (nodes demo_state ! a)) = Some (Some a)"
    by blast
  then obtain h' b where p: "popTail (lru demo_state)
          (fst (alloc (nodes demo_state) \<lparr>key = 3, value = 30, prev = None, next = None\<rparr>))
            = Inr (h', Some b)"
     "Some b \<noteq> head (lru demo_state)"
     "Mapping.lookup (cache (lru demo_state)) (key (nodes demo_state ! b)) = Some (Some b)"
    by blast
  have "(1::int) \<le> 2" by simp
  moreover have "\<exists>s'. Put demo_state 3 30 = Inr s'" using r(1) by blast
  ultimately show ?thesis using p a demo_session by blast
qed

text \<open>
  C10. \<open>Constructor\<close> returns a cache for every capacity and stores the capacity as given.
  When the capacity is zero or negative: on the new cache the test that guards \<open>popTail\<close>
  holds; in the store in which \<open>Put\<close> runs \<open>popTail\<close>, the tail's \<open>prev\<close> is the head
  sentinel and the head's \<open>prev\<close> is nil, so \<open>removeNode\<close> on the head, and with it
  \<open>popTail\<close> and \<open>Put\<close>, ends in a nil dereference; \<open>Get\<close> calls before it leave the cache
  as constructed; hence any sequence of operations fails at its first \<open>Put\<close>.
\<close>

theorem nonpositive_capacity_faults:
  "(\<exists>s0. Constructor h0 zk zv cap = Inr s0 \<and> capacity (lru s0) = cap
      \<and> (cap \<le> 0 \<longrightarrow>
           capacity (lru s0) \<le> int (Mapping.size (cache (lru s0)))
         \<and> (\<forall>n. (\<exists>t. load (fst (alloc (nodes s0) n)) (tail (lru s0)) = Inr t
                      \<and> prev t = head (lru s0))
                \<and> (\<exists>hn. load (fst (alloc (nodes s0) n)) (head (lru s0)) = Inr hn
                      \<and> prev hn = None)
                \<and> removeNode (lru s0) (fst (alloc (nodes s0) n)) (head (lru s0))
                     = Inl NilDereference
                \<and> popTail (lru s0) (fst (alloc (nodes s0) n)) = Inl NilDereference)
         \<and> Put s0 k v = Inl NilDereference
         \<and> run zv s0 (map GetOp ks) = Inr s0))
   \<and> (cap \<le> 0 \<longrightarrow> session h0 zk zv cap (map GetOp ks @ PutOp k v # rest) = Inl NilDereference)"
proof -
  obtain s0 where s0: "Constructor h0 zk zv cap = Inr s0" by (simp add: Constructor_eq)
  have cp: "capacity (lru s0) = cap" using Constructor_inv[OF s0] by simp
  have e: "Mapping.lookup (cache (lru s0)) k' = None" for k'
    using s0 unfolding Constructor_eq by auto
  have gets: "run zv s0 (map GetOp ks) = Inr s0"
    by (induction ks) (simp_all add: Get_def e)
  have runapp: "run zv s0 (map GetOp ks @ ys) = run zv s0 ys" for ys
    by (induction ks) (simp_all add: Get_def e)
  have rest: ?thesis if c: "cap \<le> 0"
  proof -
    have put: "Put s0 k v = Inl NilDereference" using c s0 by (rule Put_initial_fault)
    have sz: "capacity (lru s0) \<le> int (Mapping.size (cache (lru s0)))"
      using c cp by simp
    have det: "(\<exists>t. load (fst (alloc (nodes s0) n)) (tail (lru s0)) = Inr t
                      \<and> prev t = head (lru s0))
                \<and> (\<exists>hn. load (fst (alloc (nodes s0) n)) (head (lru s0)) = Inr hn
                      \<and> prev hn = None)
                \<and> removeNode (lru s0) (fst (alloc (nodes s0) n)) (head (lru s0))
                     = Inl NilDereference
                \<and> popTail (lru s0) (fst (alloc (nodes s0) n)) = Inl NilDereference" for n
      using s0 unfolding Constructor_eq
      by (auto simp: alloc_def popTail_def load_def removeNode_def modify_def nth_append)
    have "session h0 zk zv cap (map GetOp ks @ PutOp k v # rest) = Inl NilDereference"
      using s0 put by (simp add: session_def runapp)
    then show ?thesis using s0 cp sz det put gets by auto
  qed
  show ?thesis
  proof (cases "cap \<le> 0")
    case True
    then show ?thesis by (rule rest)
  next
    case False
    then show ?thesis using s0 cp by auto
  qed
qed

theorem nonpositive_capacity_faults_witness:
  "(0::int) \<le> 0
   \<and> session [] (0::int) (0::int) 0 [GetOp 5, PutOp 1 10, GetOp 1] = Inl NilDereference
   \<and> (\<exists>s0. Constructor [] (0::int) (0::int) 0 = Inr s0 \<and> Put s0 1 10 = Inl NilDereference)"
  using nonpositive_capacity_faults [where ?h0.0 = "[]" and zk = "0::int" and zv = "0::int" and cap = 0
      and k = 1 and v = 10 and ks = "[5]" and rest = "[GetOp 1]"]
  by auto

end
